theory Spec2Isabelle
  imports Main
begin

section \<open>Data model (src/types.ts)\<close>

text \<open>
  The crawler of \<^verbatim>\<open>src/services/proxy.ts\<close> (relay fetch client and class
  \<^verbatim>\<open>Crawler\<close>) and the caller \<^verbatim>\<open>handleStart\<close> of \<^verbatim>\<open>src/App.tsx\<close>.
  JavaScript strings are modelled as \<^typ>\<open>string\<close> (lists of code units below 256),
  counters as \<^typ>\<open>nat\<close>. A log entry keeps its message and level; its random id and
  its timestamp are not modelled.
\<close>

datatype LogLevel = INFO | SUCCESS | WARNING | ERROR

record LogEntry =
  message :: string
  level :: LogLevel

datatype asset_type = Image | Css | Js | Font | Video | Other

datatype content = Text string | Blob string

record Asset =
  originalUrl :: string
  filename :: string
  atype :: asset_type
  path :: string

datatype AppState = IDLE | CRAWLING | PROCESSING | COMPRESSING | FINISHED | ERROR_STATE

record CrawlStats =
  pagesScanned :: nat
  assetsFound :: nat
  assetsDownloaded :: nat
  totalSize :: nat

section \<open>The platform: URL parsing, DOM, randomness\<close>

text \<open>
  The browser's \<^verbatim>\<open>URL\<close> class, \<^verbatim>\<open>DOMParser\<close>, \<^verbatim>\<open>XMLSerializer\<close> and
  \<^verbatim>\<open>Math.random\<close> are not code of the repository; they are parameters of the model.
  \<^verbatim>\<open>new URL(s)\<close> is \<open>new_URL\<close>, \<^verbatim>\<open>new URL(s, base)\<close> is \<open>new_URL_base\<close>; \<open>None\<close> is
  the \<^verbatim>\<open>TypeError\<close> the constructor throws, whose message is \<open>url_error\<close>.
  A document is the list of its elements in document order; an element carries its
  local name, the \<^verbatim>\<open>tagName\<close> the DOM reports, its attributes and the local names of
  its ancestors. \<open>random36 n\<close> is the text of the \<open>n\<close>-th
  \<^verbatim>\<open>Math.random().toString(36)\<close>.
\<close>

record URL =
  href :: string
  pathname :: string
  hostname :: string

record element =
  localName :: string
  tagName :: string
  attrs :: "(string \<times> string) list"
  ancestors :: "string list"

record platform =
  new_URL :: "string \<Rightarrow> URL option"
  new_URL_base :: "string \<Rightarrow> string \<Rightarrow> URL option"
  url_error :: string
  parseFromString :: "string \<Rightarrow> element list"
  base_href :: "element \<Rightarrow> string"
  serializeToString :: "element list \<Rightarrow> string"
  random36 :: "nat \<Rightarrow> string"

section \<open>String primitives\<close>

definition startsWith :: "string \<Rightarrow> string \<Rightarrow> bool" where
  "startsWith s p = (take (length p) s = p)"

definition includes_char :: "string \<Rightarrow> char \<Rightarrow> bool" where
  "includes_char s c = (c \<in> set s)"

text \<open>\<^verbatim>\<open>s.split('/').pop()\<close>: the text after the last slash, all of \<open>s\<close> without one.\<close>

definition split_pop :: "char \<Rightarrow> string \<Rightarrow> string" where
  "split_pop c s = rev (takeWhile (\<lambda>x. x \<noteq> c) (rev s))"

text \<open>\<^verbatim>\<open>s.split('?')[0]\<close>: the text before the first question mark.\<close>

definition split_first :: "char \<Rightarrow> string \<Rightarrow> string" where
  "split_first c s = takeWhile (\<lambda>x. x \<noteq> c) s"

text \<open>
  \<^verbatim>\<open>s.split(sep).join(rep)\<close>: every occurrence of \<open>sep\<close>, found left to right without
  overlap, becomes \<open>rep\<close>. The first argument of \<open>replace_from\<close> counts the code units of
  a found occurrence still to be skipped. An empty separator splits between code units.
\<close>

fun replace_from :: "nat \<Rightarrow> string \<Rightarrow> string \<Rightarrow> string \<Rightarrow> string" where
  "replace_from n sep rep [] = []"
| "replace_from (Suc n) sep rep (c # cs) = replace_from n sep rep cs"
| "replace_from 0 sep rep (c # cs) =
     (if startsWith (c # cs) sep then rep @ replace_from (length sep - 1) sep rep cs
      else c # replace_from 0 sep rep cs)"

fun join_chars :: "string \<Rightarrow> string \<Rightarrow> string" where
  "join_chars rep [] = []"
| "join_chars rep [c] = [c]"
| "join_chars rep (c # d # cs) = c # rep @ join_chars rep (d # cs)"

definition split_join :: "string \<Rightarrow> string \<Rightarrow> string \<Rightarrow> string" where
  "split_join s sep rep = (if sep = [] then join_chars rep s else replace_from 0 sep rep s)"

definition digit :: "nat \<Rightarrow> char" where
  "digit n = ''0123456789'' ! (n mod 10)"

fun show_nat :: "nat \<Rightarrow> string" where
  "show_nat n = (if n < 10 then [digit n] else show_nat (n div 10) @ [digit (n mod 10)])"

declare show_nat.simps [simp del]

definition lower_ascii :: "char \<Rightarrow> char" where
  "lower_ascii c = (let n = (of_char c :: nat) in if 65 \<le> n \<and> n \<le> 90 then char_of (n + 32) else c)"

definition ci_eq :: "string \<Rightarrow> string \<Rightarrow> bool" where
  "ci_eq a b = (map lower_ascii a = map lower_ascii b)"

definition alnum :: "char \<Rightarrow> bool" where
  "alnum c = (let n = (of_char c :: nat) in
     (48 \<le> n \<and> n \<le> 57) \<or> (65 \<le> n \<and> n \<le> 90) \<or> (97 \<le> n \<and> n \<le> 122))"

section \<open>Naming (Crawler.getFolderForType, Crawler.getFilenameFromUrl)\<close>

fun getFolderForType :: "asset_type \<Rightarrow> string" where
  "getFolderForType Css = ''css''"
| "getFolderForType Js = ''js''"
| "getFolderForType Image = ''images''"
| "getFolderForType Font = ''fonts''"
| "getFolderForType _ = ''assets''"

text \<open>
  \<open>getFilenameFromUrl P n u ty\<close> returns the name and the number of random draws made so
  far (\<open>n\<close> before the call): the \<^verbatim>\<open>catch\<close> branch draws one.
\<close>

definition ensure_extension :: "string \<Rightarrow> asset_type \<Rightarrow> string" where
  "ensure_extension name ty =
     (if \<not> includes_char name CHR ''.'' then
        (if ty = Css then name @ ''.css''
         else if ty = Js then name @ ''.js''
         else if ty = Image then name @ ''.png''
         else name @ ''.dat'')
      else name)"

definition getFilenameFromUrl :: "platform \<Rightarrow> nat \<Rightarrow> string \<Rightarrow> asset_type \<Rightarrow> string \<times> nat" where
  "getFilenameFromUrl P n u ty =
     (case new_URL P u of
        Some x \<Rightarrow>
          (let name0 = split_pop CHR ''/'' (pathname x);
               name1 = (if name0 = [] then ''index'' else name0);
               name2 = split_first CHR ''?'' name1
           in (ensure_extension name2 ty, n))
      | None \<Rightarrow> (''file_'' @ take 5 (drop 2 (random36 P n)), Suc n))"

section \<open>The url(...) scanner of Crawler.processCssAssets\<close>

text \<open>
  The regular expression \<^verbatim>\<open>/url\((['"]?)(.*?)\1\)/g\<close>. At a position where the text
  reads \<^verbatim>\<open>url(\<close>, the optional quote is tried first, then the empty quote; the lazy
  group takes the shortest run without a line terminator after which the quote and the
  closing parenthesis follow. \<open>scan\<close> cuts a text into the matches, found left to
  right, and the code units between them; its first argument counts the code units of
  the last match still to be skipped.
\<close>

definition line_terminator :: "char \<Rightarrow> bool" where
  "line_terminator c = (c = CHR 0x0A \<or> c = CHR 0x0D)"

fun find_close :: "string \<Rightarrow> string \<Rightarrow> string option" where
  "find_close q [] = None"
| "find_close q (c # cs) =
     (if startsWith (c # cs) (q @ '')'') then Some []
      else if line_terminator c then None
      else map_option ((#) c) (find_close q cs))"

definition match_here :: "string \<Rightarrow> (string \<times> string) option" where
  "match_here s =
     (if startsWith s ''url('' then
        (case drop 4 s of
           [] \<Rightarrow> None
         | q # r \<Rightarrow>
             if q = CHR 0x27 \<or> q = CHR 0x22 then
               (case find_close [q] r of
                  Some i \<Rightarrow> Some ([q], i)
                | None \<Rightarrow> map_option (Pair []) (find_close [] (q # r)))
             else map_option (Pair []) (find_close [] (q # r)))
      else None)"

definition token_text :: "string \<Rightarrow> string \<Rightarrow> string" where
  "token_text q r = ''url('' @ q @ r @ q @ '')''"

datatype piece = Lit char | Tok string string

fun scan :: "nat \<Rightarrow> string \<Rightarrow> piece list" where
  "scan n [] = []"
| "scan (Suc n) (c # cs) = scan n cs"
| "scan 0 (c # cs) =
     (case match_here (c # cs) of
        Some (q, r) \<Rightarrow> Tok q r # scan (length (token_text q r) - 1) cs
      | None \<Rightarrow> Lit c # scan 0 cs)"

definition excluded :: "string \<Rightarrow> bool" where
  "excluded r = (startsWith r ''data:'' \<or> startsWith r ''#'')"

text \<open>The \<^verbatim>\<open>while (exec)\<close> loop: the list \<^verbatim>\<open>assetsToDownload\<close> of url and placeholder.\<close>

fun extract_refs :: "platform \<Rightarrow> string \<Rightarrow> nat \<Rightarrow> piece list \<Rightarrow> (string \<times> string) list \<times> nat" where
  "extract_refs P cssUrl n [] = ([], n)"
| "extract_refs P cssUrl n (Lit c # ps) = extract_refs P cssUrl n ps"
| "extract_refs P cssUrl n (Tok q r # ps) =
     (if excluded r then extract_refs P cssUrl n ps
      else case new_URL_base P r cssUrl of
             None \<Rightarrow> extract_refs P cssUrl n ps
           | Some u \<Rightarrow>
               (let (fname, n1) = getFilenameFromUrl P n (href u) Other;
                    (rest, n2) = extract_refs P cssUrl n1 ps
                in ((href u, ''../assets/'' @ fname) # rest, n2)))"

text \<open>The callback of the final \<^verbatim>\<open>processedCss.replace(urlRegex, ...)\<close>.\<close>

definition rewrite_token :: "platform \<Rightarrow> string \<Rightarrow> nat \<Rightarrow> string \<Rightarrow> string \<Rightarrow> string \<times> nat" where
  "rewrite_token P cssUrl n q r =
     (if excluded r then (token_text q r, n)
      else case new_URL_base P r cssUrl of
             None \<Rightarrow> (token_text q r, n)
           | Some u \<Rightarrow>
               (let (fname, n1) = getFilenameFromUrl P n (href u) Other
                in (''url('' @ q @ ''../assets/'' @ fname @ q @ '')'', n1)))"

fun rewrite_pieces :: "platform \<Rightarrow> string \<Rightarrow> nat \<Rightarrow> piece list \<Rightarrow> string \<times> nat" where
  "rewrite_pieces P cssUrl n [] = ([], n)"
| "rewrite_pieces P cssUrl n (Lit c # ps) =
     (let (s, n1) = rewrite_pieces P cssUrl n ps in (c # s, n1))"
| "rewrite_pieces P cssUrl n (Tok q r # ps) =
     (let (t, n1) = rewrite_token P cssUrl n q r;
          (s, n2) = rewrite_pieces P cssUrl n1 ps
      in (t @ s, n2))"

definition rewrite_pass :: "platform \<Rightarrow> string \<Rightarrow> nat \<Rightarrow> string \<Rightarrow> string \<times> nat" where
  "rewrite_pass P cssUrl n css = rewrite_pieces P cssUrl n (scan 0 css)"

section \<open>The crawler object and what it reports\<close>

text \<open>
  The fields of a \<^verbatim>\<open>Crawler\<close> (\<open>url\<close>, \<open>visitedUrls\<close>, \<open>assets\<close>, \<open>stats\<close>, \<open>zip_files\<close>
  for the JSZip object), the count \<open>rng\<close> of random draws, and the effects on its
  collaborators in the order they happen: \<open>logs\<close> are the calls of \<^verbatim>\<open>onLog\<close>,
  \<open>snapshots\<close> the calls of \<^verbatim>\<open>onStatsUpdate\<close>, \<open>requests\<close> the calls of \<^verbatim>\<open>fetch\<close>
  (\<open>(k, u)\<close> is the request for \<open>u\<close> through the \<open>k\<close>-th relay of \<^verbatim>\<open>PROXIES\<close>),
  \<open>saved\<close> the name handed to \<^verbatim>\<open>saveAs\<close>. The calls of \<^verbatim>\<open>console.warn\<close> are not
  modelled.
\<close>

record crawler =
  url :: URL
  visitedUrls :: "string set"
  assets :: "string \<Rightarrow> Asset option"
  stats :: CrawlStats
  zip_files :: "string \<Rightarrow> content option"
  rng :: nat
  logs :: "LogEntry list"
  snapshots :: "CrawlStats list"
  requests :: "(nat \<times> string) list"
  saved :: "string option"

definition PROXIES :: nat where
  "PROXIES = 3"

definition log :: "string \<Rightarrow> LogLevel \<Rightarrow> crawler \<Rightarrow> crawler" where
  "log m l c = c\<lparr>logs := logs c @ [\<lparr>message = m, level = l\<rparr>]\<rparr>"

text \<open>\<^verbatim>\<open>updateStats\<close>: the partial update is a function on the current counters.\<close>

definition updateStats :: "(CrawlStats \<Rightarrow> CrawlStats) \<Rightarrow> crawler \<Rightarrow> crawler" where
  "updateStats f c = c\<lparr>stats := f (stats c), snapshots := snapshots c @ [f (stats c)]\<rparr>"

definition fetch :: "nat \<Rightarrow> string \<Rightarrow> crawler \<Rightarrow> crawler" where
  "fetch k u c = c\<lparr>requests := requests c @ [(k, u)]\<rparr>"

definition zip_file :: "string \<Rightarrow> content \<Rightarrow> crawler \<Rightarrow> crawler" where
  "zip_file p d c = c\<lparr>zip_files := (zip_files c)(p \<mapsto> d)\<rparr>"

datatype error = Error string

definition new_Crawler :: "platform \<Rightarrow> string \<Rightarrow> error + crawler" where
  "new_Crawler P s =
     (case new_URL P s of
        None \<Rightarrow> Inl (Error ''Invalid URL provided'')
      | Some u \<Rightarrow>
          Inr \<lparr>url = u, visitedUrls = {}, assets = Map.empty,
               stats = \<lparr>pagesScanned = 0, assetsFound = 0, assetsDownloaded = 0, totalSize = 0\<rparr>,
               zip_files = Map.empty, rng = 0, logs = [], snapshots = [], requests = [],
               saved = None\<rparr>)"

section \<open>Download tasks (fetchWithProxy, Crawler.fetchText, Crawler.fetchBlob, Crawler.downloadAsset)\<close>

text \<open>
  An asynchronous call runs until its next \<^verbatim>\<open>await\<close>; what it awaits arrives as an
  event. \<open>FetchOk\<close> is a response with \<^verbatim>\<open>ok\<close>, \<open>FetchNotOk n\<close> one with status \<open>n\<close>,
  \<open>FetchRejected m\<close> a rejected \<^verbatim>\<open>fetch\<close> whose error prints as \<open>m\<close>; \<open>BodyOk d\<close> and
  \<open>BodyRejected m\<close> settle \<^verbatim>\<open>res.text()\<close> or \<^verbatim>\<open>res.blob()\<close>; \<open>Tick\<close> resumes a
  continuation whose awaited promise is already settled; \<open>ZipOk\<close> and \<open>ZipRejected m\<close>
  settle \<^verbatim>\<open>generateAsync\<close>.

  A task is one call of \<^verbatim>\<open>downloadAsset\<close>: its arguments, its locals and the place
  where it is suspended. In the stylesheet loop the place carries the entry of
  \<^verbatim>\<open>assetsToDownload\<close> being fetched, the entries after it and \<^verbatim>\<open>processedCss\<close>.
\<close>

datatype event =
    FetchOk | FetchNotOk nat | FetchRejected string
  | BodyOk string | BodyRejected string
  | Tick
  | ZipOk | ZipRejected string

datatype tpc =
    Skipped
  | AwaitFetch nat
  | AwaitBody
  | Resume string
  | Rejected string
  | CssFetch "string \<times> string" "(string \<times> string) list" string nat
  | CssBody "string \<times> string" "(string \<times> string) list" string
  | CssResume "string \<times> string" "(string \<times> string) list" string string
  | CssRejected "string \<times> string" "(string \<times> string) list" string
  | CssReturn string
  | Succeeded
  | Failed

record task =
  t_url :: string
  t_type :: asset_type
  t_filename :: string
  t_zipPath :: string
  t_pc :: tpc

definition fetch_failed :: "event \<Rightarrow> bool" where
  "fetch_failed ev = (case ev of FetchNotOk n \<Rightarrow> True | FetchRejected m \<Rightarrow> True | _ \<Rightarrow> False)"

definition last_error :: "event \<Rightarrow> string" where
  "last_error ev =
     (case ev of FetchNotOk n \<Rightarrow> ''Error: Status '' @ show_nat n | FetchRejected m \<Rightarrow> m | _ \<Rightarrow> [])"

definition all_failed :: "string \<Rightarrow> event \<Rightarrow> string" where
  "all_failed u ev = ''All proxies failed to fetch '' @ u @ ''. Last error: '' @ last_error ev"

definition add_size :: "nat \<Rightarrow> crawler \<Rightarrow> crawler" where
  "add_size n c = updateStats (\<lambda>s. s\<lparr>totalSize := totalSize s + n\<rparr>) c"

text \<open>The synchronous start of \<^verbatim>\<open>downloadAsset\<close>, up to its first \<^verbatim>\<open>fetch\<close>.\<close>

definition downloadAsset :: "platform \<Rightarrow> string \<Rightarrow> asset_type \<Rightarrow> crawler \<Rightarrow> task \<times> crawler" where
  "downloadAsset P u ty c =
     (if u \<in> visitedUrls c then
        (\<lparr>t_url = u, t_type = ty, t_filename = [], t_zipPath = [], t_pc = Skipped\<rparr>, c)
      else
        (let c1 = c\<lparr>visitedUrls := insert u (visitedUrls c)\<rparr>;
             c2 = log (''Fetching '' @ take 50 u @ ''...'') INFO c1;
             (fname, n) = getFilenameFromUrl P (rng c2) u ty;
             zipPath = getFolderForType ty @ ''/'' @ fname
         in (\<lparr>t_url = u, t_type = ty, t_filename = fname, t_zipPath = zipPath,
               t_pc = AwaitFetch 0\<rparr>,
             fetch 0 u (c2\<lparr>rng := n\<rparr>))))"

text \<open>
  The \<^verbatim>\<open>for (const asset of assetsToDownload)\<close> loop of \<^verbatim>\<open>processCssAssets\<close>, run until
  it suspends at a \<^verbatim>\<open>fetch\<close> or ends with the final rewrite pass.
\<close>

fun css_loop :: "platform \<Rightarrow> string \<Rightarrow> (string \<times> string) list \<Rightarrow> string \<Rightarrow> crawler \<Rightarrow> tpc \<times> crawler" where
  "css_loop P cssUrl [] pcss c =
     (let (s, n) = rewrite_pass P cssUrl (rng c) pcss in (CssReturn s, c\<lparr>rng := n\<rparr>))"
| "css_loop P cssUrl (a # rest) pcss c =
     (if fst a \<notin> visitedUrls c then
        (CssFetch a rest pcss 0, fetch 0 (fst a) (c\<lparr>visitedUrls := insert (fst a) (visitedUrls c)\<rparr>))
      else css_loop P cssUrl rest (split_join pcss (fst a) (snd a)) c)"

definition processCssAssets :: "platform \<Rightarrow> string \<Rightarrow> string \<Rightarrow> crawler \<Rightarrow> tpc \<times> crawler" where
  "processCssAssets P css cssUrl c =
     (let (todo, n) = extract_refs P cssUrl (rng c) (scan 0 css)
      in css_loop P cssUrl todo css (c\<lparr>rng := n\<rparr>))"

text \<open>The end of \<^verbatim>\<open>downloadAsset\<close>: registry entry, archive entry, counter.\<close>

definition store_asset :: "task \<Rightarrow> content \<Rightarrow> crawler \<Rightarrow> crawler" where
  "store_asset t d c =
     (let c1 = c\<lparr>assets := (assets c)(t_url t \<mapsto>
                  \<lparr>originalUrl = t_url t, filename = t_filename t, atype = t_type t,
                   path = t_zipPath t\<rparr>)\<rparr>;
          c2 = zip_file (t_zipPath t) d c1
      in updateStats (\<lambda>s. s\<lparr>assetsDownloaded := assetsDownloaded s + 1\<rparr>) c2)"

definition task_step :: "platform \<Rightarrow> event \<Rightarrow> task \<Rightarrow> crawler \<Rightarrow> task \<times> crawler" where
  "task_step P ev t c =
     (case t_pc t of
        AwaitFetch k \<Rightarrow>
          (if ev = FetchOk then (t\<lparr>t_pc := AwaitBody\<rparr>, c)
           else if fetch_failed ev then
             (if Suc k < PROXIES then (t\<lparr>t_pc := AwaitFetch (Suc k)\<rparr>, fetch (Suc k) (t_url t) c)
              else (t\<lparr>t_pc := Rejected (all_failed (t_url t) ev)\<rparr>, c))
           else (t, c))
      | AwaitBody \<Rightarrow>
          (case ev of
             BodyOk d \<Rightarrow> (t\<lparr>t_pc := Resume d\<rparr>, add_size (length d) c)
           | BodyRejected m \<Rightarrow> (t\<lparr>t_pc := Rejected m\<rparr>, c)
           | _ \<Rightarrow> (t, c))
      | Resume d \<Rightarrow>
          (if ev = Tick then
             (if t_type t = Css then
                (let (pc, c1) = processCssAssets P d (t_url t) c in (t\<lparr>t_pc := pc\<rparr>, c1))
              else if t_type t = Js then (t\<lparr>t_pc := Succeeded\<rparr>, store_asset t (Text d) c)
              else (t\<lparr>t_pc := Succeeded\<rparr>, store_asset t (Blob d) c))
           else (t, c))
      | Rejected m \<Rightarrow>
          (if ev = Tick then
             (t\<lparr>t_pc := Failed\<rparr>,
              log (''Failed to download '' @ t_url t @ '': '' @ m) WARNING c)
           else (t, c))
      | CssFetch a rest pcss k \<Rightarrow>
          (if ev = FetchOk then (t\<lparr>t_pc := CssBody a rest pcss\<rparr>, c)
           else if fetch_failed ev then
             (if Suc k < PROXIES then
                (t\<lparr>t_pc := CssFetch a rest pcss (Suc k)\<rparr>, fetch (Suc k) (fst a) c)
              else (t\<lparr>t_pc := CssRejected a rest pcss\<rparr>, c))
           else (t, c))
      | CssBody a rest pcss \<Rightarrow>
          (case ev of
             BodyOk d \<Rightarrow> (t\<lparr>t_pc := CssResume a rest pcss d\<rparr>, add_size (length d) c)
           | BodyRejected m \<Rightarrow> (t\<lparr>t_pc := CssRejected a rest pcss\<rparr>, c)
           | _ \<Rightarrow> (t, c))
      | CssResume a rest pcss d \<Rightarrow>
          (if ev = Tick then
             (let (fname, n) = getFilenameFromUrl P (rng c) (fst a) Other;
                  c1 = zip_file (''assets/'' @ fname) (Blob d) (c\<lparr>rng := n\<rparr>);
                  c2 = log (''Downloaded CSS asset: '' @ take 30 (fst a) @ ''...'') INFO c1;
                  (pc, c3) = css_loop P (t_url t) rest (split_join pcss (fst a) (snd a)) c2
              in (t\<lparr>t_pc := pc\<rparr>, c3))
           else (t, c))
      | CssRejected a rest pcss \<Rightarrow>
          (if ev = Tick then
             (let c1 = log (''Failed CSS asset: '' @ fst a) WARNING c;
                  (pc, c2) = css_loop P (t_url t) rest (split_join pcss (fst a) (snd a)) c1
              in (t\<lparr>t_pc := pc\<rparr>, c2))
           else (t, c))
      | CssReturn s \<Rightarrow>
          (if ev = Tick then (t\<lparr>t_pc := Succeeded\<rparr>, store_asset t (Text s) c) else (t, c))
      | _ \<Rightarrow> (t, c))"

definition terminal :: "task \<Rightarrow> bool" where
  "terminal t = (t_pc t = Skipped \<or> t_pc t = Succeeded \<or> t_pc t = Failed)"

section \<open>Discovery (first half of Crawler.processAssets)\<close>

text \<open>
  \<open>sel_assets\<close> is \<^verbatim>\<open>'img, link[rel="stylesheet"], script, video source, audio source'\<close>.
  In an HTML document the value of \<^verbatim>\<open>rel\<close> is compared without regard to ASCII case by
  a selector, and exactly by \<^verbatim>\<open>getAttribute('rel') === 'stylesheet'\<close>.
\<close>

definition getAttribute :: "element \<Rightarrow> string \<Rightarrow> string option" where
  "getAttribute e a = map_of (attrs e) a"

fun set_attr :: "string \<Rightarrow> string \<Rightarrow> (string \<times> string) list \<Rightarrow> (string \<times> string) list" where
  "set_attr a v [] = [(a, v)]"
| "set_attr a v (kv # kvs) = (if fst kv = a then (a, v) # kvs else kv # set_attr a v kvs)"

definition setAttribute :: "element \<Rightarrow> string \<Rightarrow> string \<Rightarrow> element" where
  "setAttribute e a v = e\<lparr>attrs := set_attr a v (attrs e)\<rparr>"

definition or_empty :: "string option \<Rightarrow> string" where
  "or_empty x = (case x of None \<Rightarrow> [] | Some v \<Rightarrow> v)"

definition has_attr :: "element \<Rightarrow> string \<Rightarrow> bool" where
  "has_attr e a = (getAttribute e a \<noteq> None)"

definition sel_stylesheet :: "element \<Rightarrow> bool" where
  "sel_stylesheet e =
     (localName e = ''link'' \<and>
      (case getAttribute e ''rel'' of None \<Rightarrow> False | Some v \<Rightarrow> ci_eq v ''stylesheet''))"

definition sel_assets :: "element \<Rightarrow> bool" where
  "sel_assets e =
     (localName e = ''img'' \<or> sel_stylesheet e \<or> localName e = ''script'' \<or>
      (localName e = ''source'' \<and> (''video'' \<in> set (ancestors e) \<or> ''audio'' \<in> set (ancestors e))))"

definition classify :: "element \<Rightarrow> string \<times> asset_type" where
  "classify e =
     (if tagName e = ''LINK'' \<and> getAttribute e ''rel'' = Some ''stylesheet''
        then (or_empty (getAttribute e ''href''), Css)
      else if tagName e = ''SCRIPT'' then (or_empty (getAttribute e ''src''), Js)
      else if tagName e = ''IMG'' then (or_empty (getAttribute e ''src''), Image)
      else if tagName e = ''SOURCE'' then (or_empty (getAttribute e ''src''), Video)
      else ([], Other))"

text \<open>The entry of \<^verbatim>\<open>assetQueue\<close> an element contributes, if any.\<close>

definition queue_entry :: "platform \<Rightarrow> string \<Rightarrow> element \<Rightarrow> (string \<times> asset_type) option" where
  "queue_entry P baseUrl e =
     (if sel_assets e then
        (let (src, ty) = classify e
         in if src \<noteq> [] \<and> \<not> startsWith src ''data:'' \<and> \<not> startsWith src ''#'' then
              (case new_URL_base P src baseUrl of
                 Some u \<Rightarrow> Some (href u, ty)
               | None \<Rightarrow> None)
            else None)
      else None)"

fun discover :: "platform \<Rightarrow> string \<Rightarrow> element list \<Rightarrow> (string \<times> asset_type) list" where
  "discover P baseUrl [] = []"
| "discover P baseUrl (e # es) =
     (case queue_entry P baseUrl e of
        Some x \<Rightarrow> x # discover P baseUrl es
      | None \<Rightarrow> discover P baseUrl es)"

definition CONCURRENCY :: nat where
  "CONCURRENCY = 5"

function chunks :: "'a list \<Rightarrow> 'a list list" where
  "chunks xs = (if xs = [] then [] else take CONCURRENCY xs # chunks (drop CONCURRENCY xs))"
  by pat_completeness auto
termination
  by (relation "measure length") (auto simp: CONCURRENCY_def)

declare chunks.simps [simp del]

fun start_chunk :: "platform \<Rightarrow> (string \<times> asset_type) list \<Rightarrow> crawler \<Rightarrow> task list \<times> crawler" where
  "start_chunk P [] c = ([], c)"
| "start_chunk P (x # xs) c =
     (let (t, c1) = downloadAsset P (fst x) (snd x) c;
          (ts, c2) = start_chunk P xs c1
      in (t # ts, c2))"

section \<open>Document rewriting (Crawler.rewriteHtml, Crawler.resolveUrl)\<close>

definition resolveUrl :: "platform \<Rightarrow> crawler \<Rightarrow> string \<Rightarrow> string" where
  "resolveUrl P c rel =
     (case new_URL_base P rel (href (url c)) of Some u \<Rightarrow> href u | None \<Rightarrow> rel)"

definition rewrite_attr :: "platform \<Rightarrow> crawler \<Rightarrow> string \<Rightarrow> string \<Rightarrow> element \<Rightarrow> element" where
  "rewrite_attr P c a folder e =
     (case getAttribute e a of
        None \<Rightarrow> e
      | Some v \<Rightarrow>
          if v = [] then e
          else (case assets c (resolveUrl P c v) of
                  None \<Rightarrow> e
                | Some x \<Rightarrow> setAttribute e a (folder @ ''/'' @ filename x)))"

definition rewrite_where :: "(element \<Rightarrow> bool) \<Rightarrow> (element \<Rightarrow> element) \<Rightarrow> element list \<Rightarrow> element list" where
  "rewrite_where sel f doc = map (\<lambda>e. if sel e then f e else e) doc"

definition rewriteHtml :: "platform \<Rightarrow> crawler \<Rightarrow> element list \<Rightarrow> element list" where
  "rewriteHtml P c doc =
     (let d1 = rewrite_where sel_stylesheet (rewrite_attr P c ''href'' ''css'') doc;
          d2 = rewrite_where (\<lambda>e. localName e = ''script'' \<and> has_attr e ''src'')
                 (rewrite_attr P c ''src'' ''js'') d1;
          d3 = rewrite_where (\<lambda>e. localName e = ''img'' \<and> has_attr e ''src'')
                 (rewrite_attr P c ''src'' ''images'') d2
      in rewrite_where
           (\<lambda>e. (localName e = ''source'' \<or> localName e = ''video'') \<and> has_attr e ''src'')
           (rewrite_attr P c ''src'' ''assets'') d3)"

section \<open>The session (Crawler.start, second half of Crawler.processAssets)\<close>

text \<open>
  \<^verbatim>\<open>finalHtml.replace(/<base[^>]*>/i, '')\<close> removes the first tag that opens with
  \<^verbatim>\<open><base\<close>; \<^verbatim>\<open>hostname.replace(/[^a-z0-9]/gi, '_')\<close> is \<open>safeName\<close>.
\<close>

fun remove_base :: "string \<Rightarrow> string" where
  "remove_base [] = []"
| "remove_base (c # cs) =
     (if ci_eq (take 5 (c # cs)) ''<base'' \<and> CHR ''>'' \<in> set (drop 5 (c # cs))
      then tl (dropWhile (\<lambda>x. x \<noteq> CHR ''>'') (drop 5 (c # cs)))
      else c # remove_base cs)"

definition safeName :: "string \<Rightarrow> string" where
  "safeName h = map (\<lambda>c. if alnum c then c else CHR ''_'') h"

text \<open>
  The driver is \<^verbatim>\<open>start\<close> with the loop of \<^verbatim>\<open>processAssets\<close> inlined. While a chunk is
  awaited it holds the document, the tasks of the earlier chunks (all settled, kept
  for reference), the tasks of the chunk awaited by \<^verbatim>\<open>Promise.all\<close>, and the chunks
  still to come.
\<close>

datatype driver =
    PageFetch nat
  | PageBody
  | PageResume string
  | PageRejected string
  | Downloading "element list" "task list" "task list" "(string \<times> asset_type) list list"
  | Compressing
  | Finished
  | Crashed string

record session =
  cr :: crawler
  drv :: driver

definition start :: "crawler \<Rightarrow> session" where
  "start c =
     \<lparr>cr = fetch 0 (href (url c)) (log (''Starting crawl for '' @ href (url c) @ ''...'') INFO c),
      drv = PageFetch 0\<rparr>"

definition crash :: "string \<Rightarrow> crawler \<Rightarrow> session" where
  "crash m c = \<lparr>cr = log (''Crawl failed: '' @ m) ERROR c, drv = Crashed m\<rparr>"

definition finish_document :: "platform \<Rightarrow> element list \<Rightarrow> crawler \<Rightarrow> session" where
  "finish_document P doc c =
     (let finalHtml = serializeToString P (rewriteHtml P c doc);
          c1 = zip_file ''index.html'' (Text (remove_base finalHtml)) c;
          c2 = log ''Generated index.html'' SUCCESS c1;
          c3 = log ''Compressing files...'' INFO c2
      in \<lparr>cr = c3, drv = Compressing\<rparr>)"

definition next_chunk ::
  "platform \<Rightarrow> element list \<Rightarrow> task list \<Rightarrow> (string \<times> asset_type) list list \<Rightarrow> crawler \<Rightarrow> session" where
  "next_chunk P doc settled cs c =
     (case cs of
        [] \<Rightarrow> finish_document P doc c
      | ch # rest \<Rightarrow>
          (let (ts, c1) = start_chunk P ch c
           in \<lparr>cr = c1, drv = Downloading doc settled ts rest\<rparr>))"

definition processAssets :: "platform \<Rightarrow> element list \<Rightarrow> string \<Rightarrow> crawler \<Rightarrow> session" where
  "processAssets P doc baseUrl c =
     (let assetQueue = discover P baseUrl doc;
          c1 = updateStats (\<lambda>s. s\<lparr>assetsFound := length assetQueue\<rparr>) c;
          c2 = log (''Found '' @ show_nat (length assetQueue) @ '' linked assets. Downloading...'')
                 INFO c1
      in next_chunk P doc [] (chunks assetQueue) c2)"

definition page_loaded :: "platform \<Rightarrow> string \<Rightarrow> crawler \<Rightarrow> session" where
  "page_loaded P html c =
     (let c1 = log ''Main HTML downloaded successfully.'' SUCCESS c;
          c2 = updateStats (\<lambda>s. s\<lparr>pagesScanned := 1\<rparr>) c1;
          doc = parseFromString P html
      in case find (\<lambda>e. localName e = ''base'') doc of
           None \<Rightarrow> processAssets P doc (href (url c)) c2
         | Some b \<Rightarrow>
             (case new_URL_base P (base_href P b) (href (url c)) of
                None \<Rightarrow> crash (url_error P) c2
              | Some u \<Rightarrow> processAssets P doc (href u) c2))"

definition driver_step :: "platform \<Rightarrow> event \<Rightarrow> session \<Rightarrow> session" where
  "driver_step P ev s =
     (case drv s of
        PageFetch k \<Rightarrow>
          (if ev = FetchOk then s\<lparr>drv := PageBody\<rparr>
           else if fetch_failed ev then
             (if Suc k < PROXIES then
                \<lparr>cr = fetch (Suc k) (href (url (cr s))) (cr s), drv = PageFetch (Suc k)\<rparr>
              else s\<lparr>drv := PageRejected (all_failed (href (url (cr s))) ev)\<rparr>)
           else s)
      | PageBody \<Rightarrow>
          (case ev of
             BodyOk d \<Rightarrow> \<lparr>cr = add_size (length d) (cr s), drv = PageResume d\<rparr>
           | BodyRejected m \<Rightarrow> s\<lparr>drv := PageRejected m\<rparr>
           | _ \<Rightarrow> s)
      | PageResume html \<Rightarrow> (if ev = Tick then page_loaded P html (cr s) else s)
      | PageRejected m \<Rightarrow> (if ev = Tick then crash m (cr s) else s)
      | Downloading doc settled ts rest \<Rightarrow>
          (if ev = Tick \<and> list_all terminal ts then next_chunk P doc (settled @ ts) rest (cr s)
           else s)
      | Compressing \<Rightarrow>
          (case ev of
             ZipOk \<Rightarrow>
               \<lparr>cr = log ''ZIP file downloaded!'' SUCCESS
                       ((cr s)\<lparr>saved := Some (safeName (hostname (url (cr s))) @ ''_source.zip'')\<rparr>),
                drv = Finished\<rparr>
           | ZipRejected m \<Rightarrow> crash m (cr s)
           | _ \<Rightarrow> s)
      | _ \<Rightarrow> s)"

text \<open>
  One step of the event loop: an event reaches the driver, or the \<open>i\<close>-th task of the
  chunk being awaited. An event nobody waits for changes nothing.
\<close>

datatype target = Driver | Task nat

definition step :: "platform \<Rightarrow> target \<times> event \<Rightarrow> session \<Rightarrow> session" where
  "step P e s =
     (case fst e of
        Driver \<Rightarrow> driver_step P (snd e) s
      | Task i \<Rightarrow>
          (case drv s of
             Downloading doc settled ts rest \<Rightarrow>
               (if i < length ts then
                  (let (t, c) = task_step P (snd e) (ts ! i) (cr s)
                   in \<lparr>cr = c, drv = Downloading doc settled (ts[i := t]) rest\<rparr>)
                else s)
           | _ \<Rightarrow> s))"

definition run :: "platform \<Rightarrow> (target \<times> event) list \<Rightarrow> session \<Rightarrow> session" where
  "run P evs s = fold (step P) evs s"

section \<open>The caller (handleStart of src/App.tsx)\<close>

record app =
  appState :: AppState
  app_logs :: "LogEntry list"
  app_stats :: CrawlStats

definition zero_stats :: CrawlStats where
  "zero_stats = \<lparr>pagesScanned = 0, assetsFound = 0, assetsDownloaded = 0, totalSize = 0\<rparr>"

text \<open>
  \<open>handleStart P u evs a\<close>: the React state after the events \<open>evs\<close>, and the network
  requests made.
\<close>

definition handleStart ::
  "platform \<Rightarrow> string \<Rightarrow> (target \<times> event) list \<Rightarrow> app \<Rightarrow> app \<times> (nat \<times> string) list" where
  "handleStart P u evs a =
     (if u = [] then (a, [])
      else case new_Crawler P u of
             Inl e \<Rightarrow> (\<lparr>appState = ERROR_STATE, app_logs = [], app_stats = zero_stats\<rparr>, [])
           | Inr c \<Rightarrow>
               (let s = run P evs (start c)
                in (\<lparr>appState = (case drv s of Finished \<Rightarrow> FINISHED
                                  | Crashed m \<Rightarrow> ERROR_STATE
                                  | _ \<Rightarrow> CRAWLING),
                     app_logs = logs (cr s),
                     app_stats = (if snapshots (cr s) = [] then zero_stats else last (snapshots (cr s)))\<rparr>,
                    requests (cr s))))"

section \<open>Auxiliary notions for the proofs\<close>

text \<open>
  A task that has not settled may still finish; \<open>budget\<close> counts the tasks of a session
  that may still be counted as downloaded: the unsettled ones of the awaited chunk and
  those of the chunks to come.
\<close>

definition pend :: "task \<Rightarrow> nat" where
  "pend t = (if terminal t then 0 else 1)"

definition budget :: "driver \<Rightarrow> nat" where
  "budget d =
     (case d of
        Downloading doc settled ts rest \<Rightarrow> sum_list (map pend ts) + length (concat rest)
      | _ \<Rightarrow> 0)"

definition page_phase :: "driver \<Rightarrow> bool" where
  "page_phase d =
     (case d of PageFetch k \<Rightarrow> True | PageBody \<Rightarrow> True | PageResume h \<Rightarrow> True
      | PageRejected m \<Rightarrow> True | _ \<Rightarrow> False)"

definition stats_ok :: "CrawlStats \<Rightarrow> bool" where
  "stats_ok x = (assetsDownloaded x \<le> assetsFound x)"

definition inv_stats :: "session \<Rightarrow> bool" where
  "inv_stats s =
     (list_all stats_ok (snapshots (cr s)) \<and>
      assetsDownloaded (stats (cr s)) + budget (drv s) \<le> assetsFound (stats (cr s)) \<and>
      (page_phase (drv s) \<longrightarrow> assetsDownloaded (stats (cr s)) = 0))"

text \<open>
  The places of a stylesheet task from the start of \<^verbatim>\<open>processCssAssets\<close> to the end of
  its download loop; what a registry entry and a started task must satisfy; the urls
  handed to \<^verbatim>\<open>fetchWithProxy\<close>, in order (each call begins at the first relay).
\<close>

definition css_phase :: "task \<Rightarrow> bool" where
  "css_phase t =
     (case t_pc t of
        Resume d \<Rightarrow> t_type t = Css
      | CssFetch a r p k \<Rightarrow> True
      | CssBody a r p \<Rightarrow> True
      | CssResume a r p d \<Rightarrow> True
      | CssRejected a r p \<Rightarrow> True
      | _ \<Rightarrow> False)"

definition asset_ok :: "string \<Rightarrow> Asset \<Rightarrow> bool" where
  "asset_ok u a = (originalUrl a = u \<and> path a = getFolderForType (atype a) @ ''/'' @ filename a)"

definition task_ok :: "task \<Rightarrow> bool" where
  "task_ok t = (t_pc t = Skipped \<or> t_zipPath t = getFolderForType (t_type t) @ ''/'' @ t_filename t)"

definition inv_registry :: "session \<Rightarrow> bool" where
  "inv_registry s =
     ((\<forall>u a. assets (cr s) u = Some a \<longrightarrow> asset_ok u a) \<and>
      (case drv s of Downloading doc settled ts rest \<Rightarrow> list_all task_ok ts | _ \<Rightarrow> True))"

definition fetched :: "crawler \<Rightarrow> string list" where
  "fetched c = map snd (filter (\<lambda>r. fst r = 0) (requests c))"

definition inv_fetch :: "crawler \<Rightarrow> bool" where
  "inv_fetch c =
     (fetched c \<noteq> [] \<and> hd (fetched c) = href (url c) \<and> distinct (tl (fetched c)) \<and>
      set (tl (fetched c)) \<subseteq> visitedUrls c)"

text \<open>
  The urls claimed by tasks (a task that found its url visited claims nothing), and the
  pair a task was queued with.
\<close>

definition claimed :: "task list \<Rightarrow> string list" where
  "claimed ts = map t_url (filter (\<lambda>t. t_pc t \<noteq> Skipped) ts)"

definition inv_claims :: "session \<Rightarrow> bool" where
  "inv_claims s =
     (inv_fetch (cr s) \<and>
      (case drv s of
         Downloading doc settled ts rest \<Rightarrow>
           distinct (claimed (settled @ ts)) \<and> set (claimed (settled @ ts)) \<subseteq> visitedUrls (cr s)
       | _ \<Rightarrow> True))"

definition key :: "task \<Rightarrow> string \<times> asset_type" where
  "key t = (t_url t, t_type t)"

definition inv_chunks :: "session \<Rightarrow> bool" where
  "inv_chunks s =
     (case drv s of
        Downloading doc settled ts rest \<Rightarrow>
          list_all terminal settled \<and>
          map key ts # rest = chunks (map key ts @ concat rest) \<and>
          length settled mod CONCURRENCY = 0 \<and>
          length settled + length ts + length (concat rest) = assetsFound (stats (cr s))
      | _ \<Rightarrow> True)"

text \<open>
  Counting in the log: an attempt is a line \<^verbatim>\<open>Fetching ...\<close> of \<^verbatim>\<open>downloadAsset\<close>, a
  failure its line \<^verbatim>\<open>Failed to download ...\<close> at level WARNING. \<open>count_pc\<close> counts
  tasks by the place they are at.
\<close>

definition is_start :: "LogEntry \<Rightarrow> bool" where
  "is_start e = (level e = INFO \<and> startsWith (message e) ''Fetching '')"

definition is_failure :: "LogEntry \<Rightarrow> bool" where
  "is_failure e = (level e = WARNING \<and> startsWith (message e) ''Failed to download '')"

definition attempts :: "crawler \<Rightarrow> nat" where
  "attempts c = length (filter is_start (logs c))"

definition failures :: "crawler \<Rightarrow> nat" where
  "failures c = length (filter is_failure (logs c))"

definition count_pc :: "(tpc \<Rightarrow> bool) \<Rightarrow> task list \<Rightarrow> nat" where
  "count_pc Q ts = length (filter (\<lambda>t. Q (t_pc t)) ts)"

definition ind :: "bool \<Rightarrow> nat" where
  "ind b = (if b then 1 else 0)"

definition inv_account :: "session \<Rightarrow> bool" where
  "inv_account s =
     ((page_phase (drv s) \<longrightarrow> attempts (cr s) = 0) \<and>
      (case drv s of
         Downloading doc settled ts rest \<Rightarrow>
           attempts (cr s) + length (concat rest) \<le> assetsFound (stats (cr s)) \<and>
           assetsDownloaded (stats (cr s)) = count_pc (\<lambda>p. p = Succeeded) (settled @ ts) \<and>
           failures (cr s) = count_pc (\<lambda>p. p = Failed) (settled @ ts) \<and>
           attempts (cr s) = count_pc (\<lambda>p. p \<noteq> Skipped) (settled @ ts) \<and>
           attempts (cr s) = assetsDownloaded (stats (cr s)) + failures (cr s) + sum_list (map pend ts)
       | _ \<Rightarrow>
           attempts (cr s) \<le> assetsFound (stats (cr s)) \<and>
           attempts (cr s) = assetsDownloaded (stats (cr s)) + failures (cr s)))"

text \<open>
  The bytes an arriving body adds to \<open>totalSize\<close>, and the places of a task before its own
  body has arrived.
\<close>

definition body_size :: "tpc \<Rightarrow> event \<Rightarrow> nat" where
  "body_size pc ev =
     (case ev of
        BodyOk d \<Rightarrow> (case pc of AwaitBody \<Rightarrow> length d | CssBody a r p \<Rightarrow> length d | _ \<Rightarrow> 0)
      | _ \<Rightarrow> 0)"

definition before_body :: "task \<Rightarrow> bool" where
  "before_body t = (case t_pc t of AwaitFetch k \<Rightarrow> True | AwaitBody \<Rightarrow> True | _ \<Rightarrow> False)"

section \<open>An example platform\<close>

text \<open>
  The answers of the platform on the inputs of the examples below: the site
  \<^verbatim>\<open>https://example.com/\<close> with a few resources, and the documents a parser returns
  for six small pages (with the \<^verbatim>\<open>html\<close>, \<^verbatim>\<open>head\<close> and \<^verbatim>\<open>body\<close> elements it adds).
  The serialized text of a document plays no part in the examples.
\<close>

definition mk_url :: "string \<Rightarrow> string \<Rightarrow> URL" where
  "mk_url host p = \<lparr>href = ''https://'' @ host @ p, pathname = p, hostname = host\<rparr>"

definition demo_new_URL :: "string \<Rightarrow> URL option" where
  "demo_new_URL s =
     (if startsWith s ''https://example.com/'' \<and>
         drop 19 s \<in> set [''/'', ''/style.css'', ''/img.png'', ''/assets/img.png'',
                           ''/a/logo.png'', ''/b/logo.png'', ''/a.png'', ''/app.js'',
                           ''/1.png'', ''/2.png'', ''/3.png'', ''/4.png'', ''/5.png'', ''/6.png'']
      then Some (mk_url ''example.com'' (drop 19 s))
      else if startsWith s ''https://cdn.example.com/'' \<and> drop 23 s \<in> set [''/'', ''/a.png'']
      then Some (mk_url ''cdn.example.com'' (drop 23 s))
      else None)"

definition demo_new_URL_base :: "string \<Rightarrow> string \<Rightarrow> URL option" where
  "demo_new_URL_base r b =
     (if b = ''https://example.com/'' \<and>
         r \<in> set [''style.css'', ''a/logo.png'', ''b/logo.png'', ''a.png'', ''app.js'',
                     ''1.png'', ''2.png'', ''3.png'', ''4.png'', ''5.png'', ''6.png'']
      then demo_new_URL (b @ r)
      else if b = ''https://cdn.example.com/'' \<and> r = ''a.png'' then demo_new_URL (b @ r)
      else if b = ''https://example.com/style.css'' \<and> r = ''img.png''
      then demo_new_URL ''https://example.com/img.png''
      else if b = ''https://example.com/style.css'' \<and> r = ''../assets/img.png''
      then demo_new_URL ''https://example.com/assets/img.png''
      else demo_new_URL r)"

definition el :: "string \<Rightarrow> string \<Rightarrow> (string \<times> string) list \<Rightarrow> string list \<Rightarrow> element" where
  "el n t a anc = \<lparr>localName = n, tagName = t, attrs = a, ancestors = anc\<rparr>"

definition gallery_doc :: "element list" where
  "gallery_doc =
     [el ''html'' ''HTML'' [] [], el ''head'' ''HEAD'' [] [''html''], el ''body'' ''BODY'' [] [''html'']] @
     map (\<lambda>n. el ''img'' ''IMG'' [(''src'', n @ ''.png'')] [''body'', ''html''])
       [''1'', ''2'', ''3'', ''4'', ''5'', ''6'']"

definition gallery_html :: string where
  "gallery_html =
     ''<img src=1.png><img src=2.png><img src=3.png><img src=4.png><img src=5.png><img src=6.png>''"

definition demo_parse :: "string \<Rightarrow> element list" where
  "demo_parse h =
     (if h = ''<link rel=stylesheet href=style.css>'' then
        [el ''html'' ''HTML'' [] [], el ''head'' ''HEAD'' [] [''html''],
         el ''link'' ''LINK'' [(''rel'', ''stylesheet''), (''href'', ''style.css'')] [''head'', ''html''],
         el ''body'' ''BODY'' [] [''html'']]
      else if h = ''<img src=a/logo.png><img src=b/logo.png>'' then
        [el ''html'' ''HTML'' [] [], el ''head'' ''HEAD'' [] [''html''],
         el ''body'' ''BODY'' [] [''html''],
         el ''img'' ''IMG'' [(''src'', ''a/logo.png'')] [''body'', ''html''],
         el ''img'' ''IMG'' [(''src'', ''b/logo.png'')] [''body'', ''html'']]
      else if h = ''<base href=https://cdn.example.com/><img src=a.png>'' then
        [el ''html'' ''HTML'' [] [], el ''head'' ''HEAD'' [] [''html''],
         el ''base'' ''BASE'' [(''href'', ''https://cdn.example.com/'')] [''head'', ''html''],
         el ''body'' ''BODY'' [] [''html''],
         el ''img'' ''IMG'' [(''src'', ''a.png'')] [''body'', ''html'']]
      else if h = ''<script src=https://example.com/></script>'' then
        [el ''html'' ''HTML'' [] [], el ''head'' ''HEAD'' [] [''html''],
         el ''script'' ''SCRIPT'' [(''src'', ''https://example.com/'')] [''head'', ''html''],
         el ''body'' ''BODY'' [] [''html'']]
      else if h = ''<img src=a.png><img src=a.png><script src=app.js></script>'' then
        [el ''html'' ''HTML'' [] [], el ''head'' ''HEAD'' [] [''html''],
         el ''body'' ''BODY'' [] [''html''],
         el ''img'' ''IMG'' [(''src'', ''a.png'')] [''body'', ''html''],
         el ''img'' ''IMG'' [(''src'', ''a.png'')] [''body'', ''html''],
         el ''script'' ''SCRIPT'' [(''src'', ''app.js'')] [''body'', ''html'']]
      else if h = gallery_html then gallery_doc
      else [el ''html'' ''HTML'' [] [], el ''head'' ''HEAD'' [] [''html''],
            el ''body'' ''BODY'' [] [''html'']])"

definition demo :: platform where
  "demo =
     \<lparr>new_URL = demo_new_URL, new_URL_base = demo_new_URL_base, url_error = ''Invalid URL'',
      parseFromString = demo_parse, base_href = (\<lambda>e. or_empty (getAttribute e ''href'')),
      serializeToString = (\<lambda>d. ''<html></html>''), random36 = (\<lambda>n. ''0.4fzyo82mvyr'')\<rparr>"

definition demo_crawler :: crawler where
  "demo_crawler =
     \<lparr>url = mk_url ''example.com'' ''/'', visitedUrls = {}, assets = Map.empty,
      stats = \<lparr>pagesScanned = 0, assetsFound = 0, assetsDownloaded = 0, totalSize = 0\<rparr>,
      zip_files = Map.empty, rng = 0, logs = [], snapshots = [], requests = [], saved = None\<rparr>"

text \<open>
  A page with one stylesheet that embeds one image; every request succeeds at the first
  relay.
\<close>

definition stylesheet_events :: "(target \<times> event) list" where
  "stylesheet_events =
     [(Driver, FetchOk), (Driver, BodyOk ''<link rel=stylesheet href=style.css>''), (Driver, Tick),
      (Task 0, FetchOk), (Task 0, BodyOk ''body{background-image:url(img.png)}''), (Task 0, Tick),
      (Task 0, FetchOk), (Task 0, BodyOk ''PNG''), (Task 0, Tick), (Task 0, Tick),
      (Driver, Tick), (Driver, ZipOk)]"

text \<open>
  A page with two images of the same name in two directories, fetched side by side; and a
  stylesheet task at the point where the body of its one sub-asset has arrived.
\<close>

definition logo_events :: "(target \<times> event) list" where
  "logo_events =
     [(Driver, FetchOk), (Driver, BodyOk ''<img src=a/logo.png><img src=b/logo.png>''), (Driver, Tick),
      (Task 0, FetchOk), (Task 1, FetchOk), (Task 0, BodyOk ''first''), (Task 1, BodyOk ''second''),
      (Task 0, Tick), (Task 1, Tick), (Driver, Tick), (Driver, ZipOk)]"

definition demo_css_task :: task where
  "demo_css_task =
     \<lparr>t_url = ''https://example.com/style.css'', t_type = Css, t_filename = ''style.css'',
      t_zipPath = ''css/style.css'',
      t_pc = CssResume (''https://example.com/img.png'', ''../assets/img.png'') []
               ''body{background-image:url(img.png)}'' ''PNG''\<rparr>"

definition logo_a :: Asset where
  "logo_a = \<lparr>originalUrl = ''https://example.com/a/logo.png'', filename = ''logo.png'',
              atype = Image, path = ''images/logo.png''\<rparr>"

definition logo_b :: Asset where
  "logo_b = \<lparr>originalUrl = ''https://example.com/b/logo.png'', filename = ''logo.png'',
              atype = Image, path = ''images/logo.png''\<rparr>"

text \<open>A page whose one script is the page's own url.\<close>

definition self_events :: "(target \<times> event) list" where
  "self_events =
     [(Driver, FetchOk), (Driver, BodyOk ''<script src=https://example.com/></script>''),
      (Driver, Tick)]"

text \<open>
  A page with six images, so two chunks. In the first chunk the second image fails at
  every relay; \<open>gallery_first\<close> ends when the second chunk has been started,
  \<open>gallery_events\<close> when the archive has been saved.
\<close>

definition gallery_first :: "(target \<times> event) list" where
  "gallery_first =
     [(Driver, FetchOk), (Driver, BodyOk gallery_html), (Driver, Tick),
      (Task 0, FetchOk), (Task 1, FetchNotOk 404), (Task 2, FetchOk), (Task 3, FetchOk),
      (Task 4, FetchOk), (Task 1, FetchNotOk 404), (Task 0, BodyOk ''1''),
      (Task 1, FetchRejected ''TypeError: Failed to fetch''), (Task 2, BodyOk ''22''),
      (Task 3, BodyOk ''333''), (Task 4, BodyOk ''4444''), (Task 1, Tick), (Task 0, Tick),
      (Task 2, Tick), (Task 3, Tick), (Task 4, Tick), (Driver, Tick)]"

definition gallery_events :: "(target \<times> event) list" where
  "gallery_events =
     gallery_first @
     [(Task 0, FetchOk), (Task 0, BodyOk ''666666''), (Task 0, Tick), (Driver, Tick), (Driver, ZipOk)]"

definition img_task :: "string \<Rightarrow> tpc \<Rightarrow> task" where
  "img_task n pc =
     \<lparr>t_url = ''https://example.com/'' @ n @ ''.png'', t_type = Image, t_filename = n @ ''.png'',
      t_zipPath = ''images/'' @ n @ ''.png'', t_pc = pc\<rparr>"

definition gallery_settled :: "task list" where
  "gallery_settled =
     [img_task ''1'' Succeeded, img_task ''2'' Failed, img_task ''3'' Succeeded,
      img_task ''4'' Succeeded, img_task ''5'' Succeeded]"

text \<open>
  A page with the same image twice and a script that fails at every relay; and a page
  with a \<^verbatim>\<open>base\<close> element, up to the end of its one download.
\<close>

definition dup_events :: "(target \<times> event) list" where
  "dup_events =
     [(Driver, FetchOk),
      (Driver, BodyOk ''<img src=a.png><img src=a.png><script src=app.js></script>''),
      (Driver, Tick),
      (Task 0, FetchOk), (Task 2, FetchNotOk 500), (Task 2, FetchNotOk 500), (Task 2, FetchNotOk 500),
      (Task 0, BodyOk ''img''), (Task 0, Tick), (Task 2, Tick), (Driver, Tick), (Driver, ZipOk)]"

definition base_events :: "(target \<times> event) list" where
  "base_events =
     [(Driver, FetchOk), (Driver, BodyOk ''<base href=https://cdn.example.com/><img src=a.png>''),
      (Driver, Tick), (Task 0, FetchOk), (Task 0, BodyOk ''img''), (Task 0, Tick)]"

section \<open>Frame lemmas\<close>

lemmas ops_defs = log_def updateStats_def fetch_def zip_file_def add_size_def store_asset_def

lemma css_loop_frame:
  "css_loop P u todo pcss c = (pc, c') \<Longrightarrow>
     ((\<exists>s. pc = CssReturn s) \<or> (\<exists>a r p. pc = CssFetch a r p 0)) \<and>
     stats c' = stats c \<and> snapshots c' = snapshots c \<and> assets c' = assets c \<and>
     zip_files c' = zip_files c \<and> logs c' = logs c \<and> url c' = url c \<and> saved c' = saved c"
  by (induction P u todo pcss c rule: css_loop.induct)
     (auto simp: ops_defs split: if_splits prod.splits)

lemma processCssAssets_frame:
  "processCssAssets P css u c = (pc, c') \<Longrightarrow>
     ((\<exists>s. pc = CssReturn s) \<or> (\<exists>a r p. pc = CssFetch a r p 0)) \<and>
     stats c' = stats c \<and> snapshots c' = snapshots c \<and> assets c' = assets c \<and>
     zip_files c' = zip_files c \<and> logs c' = logs c \<and> url c' = url c \<and> saved c' = saved c"
  by (auto simp: processCssAssets_def split: prod.splits dest!: css_loop_frame)

section \<open>The counters never overtake the denominator\<close>

lemma task_step_terminal: "terminal t \<Longrightarrow> task_step P ev t c = (t, c)"
  by (auto simp: task_step_def terminal_def)

lemma task_step_downloaded:
  "task_step P ev t c = (t', c') \<Longrightarrow>
     assetsDownloaded (stats c') =
       assetsDownloaded (stats c) + (if t_pc t' = Succeeded \<and> t_pc t \<noteq> Succeeded then 1 else 0)"
  apply (cases "t_pc t")
  apply (auto simp: task_step_def ops_defs split: if_splits event.splits prod.splits
     dest!: css_loop_frame processCssAssets_frame)
  done

lemma task_step_found:
  "task_step P ev t c = (t', c') \<Longrightarrow> assetsFound (stats c') = assetsFound (stats c)"
  apply (cases "t_pc t")
  apply (auto simp: task_step_def ops_defs split: if_splits event.splits prod.splits
     dest!: css_loop_frame processCssAssets_frame)
  done

lemma task_step_snapshots:
  "task_step P ev t c = (t', c') \<Longrightarrow>
     snapshots c' = snapshots c \<or> snapshots c' = snapshots c @ [stats c']"
  apply (cases "t_pc t")
  apply (auto simp: task_step_def ops_defs split: if_splits event.splits prod.splits
     dest!: css_loop_frame processCssAssets_frame)
  done

lemma pend_update:
  "i < length ts \<Longrightarrow>
     sum_list (map pend (ts[i := t])) + pend (ts ! i) = sum_list (map pend ts) + pend t"
proof (induction ts arbitrary: i)
  case Nil
  then show ?case by simp
next
  case (Cons a ts)
  then show ?case by (cases i) auto
qed

lemma chunks_concat: "concat (chunks xs) = xs"
proof (induction xs rule: chunks.induct)
  case (1 xs)
  show ?case
  proof (cases "xs = []")
    case True
    then show ?thesis by (simp add: chunks.simps)
  next
    case False
    with 1 show ?thesis by (subst chunks.simps) simp
  qed
qed

lemma downloadAsset_frame:
  "downloadAsset P u ty c = (t, c') \<Longrightarrow>
     stats c' = stats c \<and> snapshots c' = snapshots c \<and> assets c' = assets c \<and>
     zip_files c' = zip_files c \<and> url c' = url c \<and> saved c' = saved c"
  by (auto simp: downloadAsset_def ops_defs Let_def split: if_splits prod.splits)

lemma start_chunk_frame:
  "start_chunk P xs c = (ts, c') \<Longrightarrow>
     stats c' = stats c \<and> snapshots c' = snapshots c \<and> assets c' = assets c \<and>
     zip_files c' = zip_files c \<and> url c' = url c \<and> saved c' = saved c"
proof (induction xs arbitrary: c ts c')
  case Nil
  then show ?case by simp
next
  case (Cons x xs)
  obtain t c1 where d: "downloadAsset P (fst x) (snd x) c = (t, c1)"
    by (cases "downloadAsset P (fst x) (snd x) c")
  obtain ts1 c2 where r: "start_chunk P xs c1 = (ts1, c2)"
    by (cases "start_chunk P xs c1")
  from Cons.prems d r have "c' = c2" by simp
  with Cons.IH [OF r] downloadAsset_frame [OF d] show ?case by simp
qed

lemma start_chunk_pend:
  "start_chunk P xs c = (ts, c') \<Longrightarrow> sum_list (map pend ts) \<le> length xs"
proof (induction xs arbitrary: c ts c')
  case Nil
  then show ?case by simp
next
  case (Cons x xs)
  obtain t c1 where d: "downloadAsset P (fst x) (snd x) c = (t, c1)"
    by (cases "downloadAsset P (fst x) (snd x) c")
  obtain ts1 c2 where r: "start_chunk P xs c1 = (ts1, c2)"
    by (cases "start_chunk P xs c1")
  from Cons.prems d r have "ts = t # ts1" by simp
  moreover have "pend t \<le> 1" by (simp add: pend_def)
  ultimately show ?case using Cons.IH [OF r] by simp
qed

lemma finish_document_inv_stats:
  "list_all stats_ok (snapshots c) \<Longrightarrow> stats_ok (stats c) \<Longrightarrow> inv_stats (finish_document P doc c)"
  by (simp add: inv_stats_def finish_document_def Let_def ops_defs budget_def page_phase_def stats_ok_def)

lemma next_chunk_inv_stats:
  assumes "list_all stats_ok (snapshots c)"
    and "assetsDownloaded (stats c) + length (concat cs) \<le> assetsFound (stats c)"
  shows "inv_stats (next_chunk P doc settled cs c)"
proof (cases cs)
  case Nil
  with assms show ?thesis
    by (simp add: next_chunk_def finish_document_inv_stats stats_ok_def)
next
  case (Cons ch rest)
  obtain ts c1 where r: "start_chunk P ch c = (ts, c1)"
    by (cases "start_chunk P ch c")
  from start_chunk_frame [OF r] start_chunk_pend [OF r] assms Cons r show ?thesis
    by (simp add: next_chunk_def inv_stats_def budget_def page_phase_def)
qed

lemma crash_inv_stats:
  "list_all stats_ok (snapshots c) \<Longrightarrow> stats_ok (stats c) \<Longrightarrow> inv_stats (crash m c)"
  by (simp add: inv_stats_def crash_def ops_defs budget_def page_phase_def stats_ok_def)

lemma processAssets_inv_stats:
  assumes "list_all stats_ok (snapshots c)" and "assetsDownloaded (stats c) = 0"
  shows "inv_stats (processAssets P doc b c)"
  unfolding processAssets_def Let_def
  by (rule next_chunk_inv_stats) (use assms in \<open>simp_all add: ops_defs stats_ok_def chunks_concat\<close>)

lemma page_loaded_inv_stats:
  assumes "list_all stats_ok (snapshots c)" and "assetsDownloaded (stats c) = 0"
  shows "inv_stats (page_loaded P html c)"
  unfolding page_loaded_def Let_def
  using assms
  by (auto split: option.splits intro!: processAssets_inv_stats crash_inv_stats simp: ops_defs stats_ok_def)

lemma driver_step_inv_stats:
  assumes "inv_stats s"
  shows "inv_stats (driver_step P ev s)"
proof (cases "drv s")
  case (PageFetch k)
  with assms show ?thesis
    by (auto simp: driver_step_def inv_stats_def budget_def page_phase_def ops_defs)
next
  case PageBody
  with assms show ?thesis
    by (auto simp: driver_step_def inv_stats_def budget_def page_phase_def ops_defs stats_ok_def
        split: event.splits)
next
  case (PageResume html)
  with assms have "list_all stats_ok (snapshots (cr s))" "assetsDownloaded (stats (cr s)) = 0"
    by (simp_all add: inv_stats_def page_phase_def)
  then have "inv_stats (page_loaded P html (cr s))" by (rule page_loaded_inv_stats)
  with assms PageResume show ?thesis by (simp add: driver_step_def)
next
  case (PageRejected m)
  with assms have "list_all stats_ok (snapshots (cr s))" "stats_ok (stats (cr s))"
    by (simp_all add: inv_stats_def page_phase_def stats_ok_def)
  then have "inv_stats (crash m (cr s))" by (rule crash_inv_stats)
  with assms PageRejected show ?thesis by (simp add: driver_step_def)
next
  case (Downloading doc settled ts rest)
  show ?thesis
  proof (cases "ev = Tick \<and> list_all terminal ts")
    case True
    with assms Downloading have "list_all stats_ok (snapshots (cr s))"
      "assetsDownloaded (stats (cr s)) + length (concat rest) \<le> assetsFound (stats (cr s))"
      by (simp_all add: inv_stats_def budget_def)
    then have "inv_stats (next_chunk P doc (settled @ ts) rest (cr s))" by (rule next_chunk_inv_stats)
    with True Downloading show ?thesis by (simp add: driver_step_def)
  next
    case False
    with assms Downloading show ?thesis by (auto simp: driver_step_def)
  qed
next
  case Compressing
  from assms Compressing have a: "list_all stats_ok (snapshots (cr s))" "stats_ok (stats (cr s))"
    by (simp_all add: inv_stats_def budget_def stats_ok_def)
  then have "\<And>m. inv_stats (crash m (cr s))" by (simp add: crash_inv_stats)
  with assms Compressing show ?thesis
    by (auto simp: driver_step_def inv_stats_def budget_def page_phase_def ops_defs split: event.splits)
next
  case Finished
  with assms show ?thesis by (simp add: driver_step_def)
next
  case (Crashed m)
  with assms show ?thesis by (simp add: driver_step_def)
qed

lemma task_event_inv_stats:
  assumes "inv_stats s" and d: "drv s = Downloading doc settled ts rest" and i: "i < length ts"
    and t: "task_step P ev (ts ! i) (cr s) = (t', c')"
  shows "inv_stats \<lparr>cr = c', drv = Downloading doc settled (ts[i := t']) rest\<rparr>"
proof -
  let ?t = "ts ! i"
  have dl: "assetsDownloaded (stats c') + pend t' \<le> assetsDownloaded (stats (cr s)) + pend ?t"
  proof (cases "terminal ?t")
    case True
    with t show ?thesis by (simp add: task_step_terminal)
  next
    case False
    then have "pend ?t = 1" by (simp add: pend_def)
    with task_step_downloaded [OF t] show ?thesis by (auto simp: pend_def terminal_def)
  qed
  have fd: "assetsFound (stats c') = assetsFound (stats (cr s))" by (rule task_step_found [OF t])
  from pend_update [OF i, of t']
  have pu: "sum_list (map pend (ts[i := t'])) + pend ?t = sum_list (map pend ts) + pend t'" .
  from assms(1) d have b: "assetsDownloaded (stats (cr s)) + (sum_list (map pend ts) + length (concat rest))
      \<le> assetsFound (stats (cr s))"
    by (simp add: inv_stats_def budget_def)
  have le: "assetsDownloaded (stats c') + (sum_list (map pend (ts[i := t'])) + length (concat rest))
      \<le> assetsFound (stats c')"
    using dl fd pu b by linarith
  then have ok: "stats_ok (stats c')" by (simp add: stats_ok_def)
  from assms(1) have "list_all stats_ok (snapshots (cr s))" by (simp add: inv_stats_def)
  with task_step_snapshots [OF t] ok have "list_all stats_ok (snapshots c')" by auto
  with le show ?thesis by (simp add: inv_stats_def budget_def page_phase_def)
qed

lemma step_inv_stats: "inv_stats s \<Longrightarrow> inv_stats (step P e s)"
proof (cases "fst e")
  case Driver
  assume "inv_stats s"
  with Driver show ?thesis by (simp add: step_def driver_step_inv_stats)
next
  case (Task i)
  assume a: "inv_stats s"
  show ?thesis
  proof (cases "drv s")
    case (Downloading doc settled ts rest)
    show ?thesis
    proof (cases "i < length ts")
      case True
      obtain t' c' where t: "task_step P (snd e) (ts ! i) (cr s) = (t', c')"
        by (cases "task_step P (snd e) (ts ! i) (cr s)")
      from task_event_inv_stats [OF a Downloading True t] Task Downloading True t show ?thesis
        by (simp add: step_def)
    next
      case False
      with a Task Downloading show ?thesis by (simp add: step_def)
    qed
  qed (use a Task in \<open>simp_all add: step_def\<close>)
qed

lemma run_inv_stats: "inv_stats s \<Longrightarrow> inv_stats (run P evs s)"
  unfolding run_def by (induction evs arbitrary: s) (simp_all add: step_inv_stats)

lemma start_inv_stats: "new_Crawler P u = Inr c \<Longrightarrow> inv_stats (start c)"
  by (auto simp: new_Crawler_def start_def inv_stats_def budget_def page_phase_def ops_defs
      split: option.splits)

section \<open>Case rules for the steps of a session\<close>

lemma driver_step_cases:
  assumes "Q s"
    and "\<And>k. drv s = PageFetch k \<Longrightarrow> Q (s\<lparr>drv := PageBody\<rparr>)"
    and "\<And>k. drv s = PageFetch k \<Longrightarrow>
           Q \<lparr>cr = fetch (Suc k) (href (url (cr s))) (cr s), drv = PageFetch (Suc k)\<rparr>"
    and "\<And>m. page_phase (drv s) \<Longrightarrow> Q (s\<lparr>drv := PageRejected m\<rparr>)"
    and "\<And>d. drv s = PageBody \<Longrightarrow> Q \<lparr>cr = add_size (length d) (cr s), drv = PageResume d\<rparr>"
    and "\<And>h. drv s = PageResume h \<Longrightarrow> Q (page_loaded P h (cr s))"
    and "\<And>m. drv s = PageRejected m \<or> drv s = Compressing \<Longrightarrow> Q (crash m (cr s))"
    and "\<And>doc settled ts rest. drv s = Downloading doc settled ts rest \<Longrightarrow>
           list_all terminal ts \<Longrightarrow> Q (next_chunk P doc (settled @ ts) rest (cr s))"
    and "drv s = Compressing \<Longrightarrow>
           Q \<lparr>cr = log ''ZIP file downloaded!'' SUCCESS
                    ((cr s)\<lparr>saved := Some (safeName (hostname (url (cr s))) @ ''_source.zip'')\<rparr>),
              drv = Finished\<rparr>"
  shows "Q (driver_step P ev s)"
proof (cases "drv s")
  case (PageFetch k)
  with assms(1-4) show ?thesis by (simp add: driver_step_def page_phase_def)
next
  case PageBody
  with assms(1,4,5) show ?thesis
    by (cases ev) (simp_all add: driver_step_def page_phase_def)
next
  case (PageResume h)
  with assms(1,6) show ?thesis by (simp add: driver_step_def)
next
  case (PageRejected m)
  with assms(1,7) show ?thesis by (simp add: driver_step_def)
next
  case (Downloading doc settled ts rest)
  with assms(1,8) show ?thesis by (simp add: driver_step_def)
next
  case Compressing
  with assms(1,7,9) show ?thesis by (cases ev) (simp_all add: driver_step_def)
next
  case Finished
  with assms(1) show ?thesis by (simp add: driver_step_def)
next
  case (Crashed m)
  with assms(1) show ?thesis by (simp add: driver_step_def)
qed

lemma step_cases:
  assumes "Q s"
    and "\<And>ev. Q (driver_step P ev s)"
    and "\<And>doc settled ts rest i ev t' c'.
           drv s = Downloading doc settled ts rest \<Longrightarrow> i < length ts \<Longrightarrow>
           task_step P ev (ts ! i) (cr s) = (t', c') \<Longrightarrow>
           Q \<lparr>cr = c', drv = Downloading doc settled (ts[i := t']) rest\<rparr>"
  shows "Q (step P e s)"
proof (cases "fst e")
  case Driver
  with assms(2) show ?thesis by (simp add: step_def)
next
  case (Task i)
  show ?thesis
  proof (cases "drv s")
    case (Downloading doc settled ts rest)
    show ?thesis
    proof (cases "i < length ts")
      case True
      obtain t' c' where t: "task_step P (snd e) (ts ! i) (cr s) = (t', c')"
        by (cases "task_step P (snd e) (ts ! i) (cr s)")
      from assms(3) [OF Downloading True t] Task Downloading True t show ?thesis
        by (simp add: step_def)
    next
      case False
      with assms(1) Task Downloading show ?thesis by (simp add: step_def)
    qed
  qed (use assms(1) Task in \<open>simp_all add: step_def\<close>)
qed

lemma run_invariant:
  assumes "Q s" and "\<And>s e. Q s \<Longrightarrow> Q (step P e s)"
  shows "Q (run P evs s)"
  using assms(1) unfolding run_def
  by (induction evs arbitrary: s) (simp_all add: assms(2))

lemma page_loaded_cases:
  assumes "\<And>c2. c2 = updateStats (\<lambda>s. s\<lparr>pagesScanned := 1\<rparr>)
                    (log ''Main HTML downloaded successfully.'' SUCCESS c) \<Longrightarrow>
             Q (crash (url_error P) c2)"
    and "\<And>c3 q. c3 = log (''Found '' @ show_nat (length q) @ '' linked assets. Downloading...'') INFO
                    (updateStats (\<lambda>s. s\<lparr>assetsFound := length q\<rparr>)
                      (updateStats (\<lambda>s. s\<lparr>pagesScanned := 1\<rparr>)
                        (log ''Main HTML downloaded successfully.'' SUCCESS c))) \<Longrightarrow>
             Q (next_chunk P (parseFromString P h) [] (chunks q) c3)"
  shows "Q (page_loaded P h c)"
  using assms
  by (auto simp: page_loaded_def processAssets_def Let_def split: option.splits)

lemma next_chunk_cases:
  assumes "cs = [] \<Longrightarrow> Q (finish_document P doc c)"
    and "\<And>ch rest ts c1. cs = ch # rest \<Longrightarrow> start_chunk P ch c = (ts, c1) \<Longrightarrow>
           Q \<lparr>cr = c1, drv = Downloading doc settled ts rest\<rparr>"
  shows "Q (next_chunk P doc settled cs c)"
proof (cases cs)
  case Nil
  with assms(1) show ?thesis by (simp add: next_chunk_def)
next
  case (Cons ch rest)
  obtain ts c1 where r: "start_chunk P ch c = (ts, c1)"
    by (cases "start_chunk P ch c")
  from assms(2) [OF Cons r] Cons r show ?thesis by (simp add: next_chunk_def)
qed

section \<open>The registry\<close>

lemma task_step_fields:
  "task_step P ev t c = (t', c') \<Longrightarrow> t' = t\<lparr>t_pc := t_pc t'\<rparr>"
  apply (cases "t_pc t")
  apply (auto simp: task_step_def split: if_splits event.splits prod.splits)
  done

lemma task_step_assets:
  "task_step P ev t c = (t', c') \<Longrightarrow>
     assets c' = assets c \<or>
     assets c' = (assets c)(t_url t \<mapsto> \<lparr>originalUrl = t_url t, filename = t_filename t,
        atype = t_type t, path = t_zipPath t\<rparr>) \<and> t_pc t \<noteq> Skipped"
  apply (cases "t_pc t")
  apply (auto simp: task_step_def ops_defs split: if_splits event.splits prod.splits
      dest!: css_loop_frame processCssAssets_frame)
  done

lemma task_step_skipped:
  "task_step P ev t c = (t', c') \<Longrightarrow> t_pc t' = Skipped \<Longrightarrow> t_pc t = Skipped"
  apply (cases "t_pc t")
  apply (auto simp: task_step_def ops_defs split: if_splits event.splits prod.splits
      dest!: css_loop_frame processCssAssets_frame)
  done

lemma downloadAsset_task_ok: "downloadAsset P u ty c = (t, c') \<Longrightarrow> task_ok t"
  by (auto simp: downloadAsset_def task_ok_def Let_def split: if_splits prod.splits)

lemma start_chunk_task_ok: "start_chunk P xs c = (ts, c') \<Longrightarrow> list_all task_ok ts"
proof (induction xs arbitrary: c ts c')
  case Nil
  then show ?case by simp
next
  case (Cons x xs)
  obtain t c1 where d: "downloadAsset P (fst x) (snd x) c = (t, c1)"
    by (cases "downloadAsset P (fst x) (snd x) c")
  obtain ts1 c2 where r: "start_chunk P xs c1 = (ts1, c2)"
    by (cases "start_chunk P xs c1")
  from Cons.prems d r have "ts = t # ts1" by simp
  with Cons.IH [OF r] downloadAsset_task_ok [OF d] show ?case by simp
qed

lemma crash_cr: "cr (crash m c) = log (''Crawl failed: '' @ m) ERROR c" and crash_drv: "drv (crash m c) = Crashed m"
  by (simp_all add: crash_def)

lemma finish_document_drv: "drv (finish_document P doc c) = Compressing"
  by (simp add: finish_document_def Let_def)

lemma finish_document_frame:
  "stats (cr (finish_document P doc c)) = stats c \<and>
   snapshots (cr (finish_document P doc c)) = snapshots c \<and>
   assets (cr (finish_document P doc c)) = assets c \<and>
   requests (cr (finish_document P doc c)) = requests c \<and>
   visitedUrls (cr (finish_document P doc c)) = visitedUrls c \<and>
   url (cr (finish_document P doc c)) = url c"
  by (simp add: finish_document_def Let_def ops_defs)

lemma list_all_update: "list_all Q xs \<Longrightarrow> Q x \<Longrightarrow> list_all Q (xs[i := x])"
  by (induction xs arbitrary: i) (auto split: nat.splits)

lemma task_step_task_ok:
  assumes "task_step P ev t c = (t', c')" and "task_ok t"
  shows "task_ok t'"
proof -
  from task_step_fields [OF assms(1)] have f: "t' = t\<lparr>t_pc := t_pc t'\<rparr>" .
  show ?thesis
  proof (cases "t_pc t = Skipped")
    case True
    then have "terminal t" by (simp add: terminal_def)
    with assms(1) have "t' = t" by (simp add: task_step_terminal)
    with assms(2) show ?thesis by simp
  next
    case False
    with assms(2) have "t_zipPath t = getFolderForType (t_type t) @ ''/'' @ t_filename t"
      by (simp add: task_ok_def)
    with f show ?thesis by (metis task.select_convs(2-4) task.surjective task.update_convs(5) task_ok_def)
  qed
qed

lemma inv_registry_step:
  assumes "inv_registry s"
  shows "inv_registry (step P e s)"
proof (rule step_cases)
  show "inv_registry s" by fact
next
  fix ev
  show "inv_registry (driver_step P ev s)"
  proof (rule driver_step_cases)
    show "inv_registry s" by fact
  next
    fix h
    show "inv_registry (page_loaded P h (cr s))"
    proof (rule page_loaded_cases)
      fix c2
      assume "c2 = updateStats (\<lambda>s. s\<lparr>pagesScanned := 1\<rparr>)
                    (log ''Main HTML downloaded successfully.'' SUCCESS (cr s))"
      with assms show "inv_registry (crash (url_error P) c2)"
        by (simp add: inv_registry_def crash_def ops_defs)
    next
      fix c3 and q :: "(string \<times> asset_type) list"
      assume c3: "c3 = log (''Found '' @ show_nat (length q) @ '' linked assets. Downloading...'') INFO
                    (updateStats (\<lambda>s. s\<lparr>assetsFound := length q\<rparr>)
                      (updateStats (\<lambda>s. s\<lparr>pagesScanned := 1\<rparr>)
                        (log ''Main HTML downloaded successfully.'' SUCCESS (cr s))))"
      show "inv_registry (next_chunk P (parseFromString P h) [] (chunks q) c3)"
      proof (rule next_chunk_cases)
        from assms c3 show "inv_registry (finish_document P (parseFromString P h) c3)"
          by (simp add: inv_registry_def finish_document_frame finish_document_drv ops_defs)
      next
        fix ch rest ts c1
        assume "start_chunk P ch c3 = (ts, c1)"
        from start_chunk_frame [OF this] start_chunk_task_ok [OF this] assms c3
        show "inv_registry \<lparr>cr = c1, drv = Downloading (parseFromString P h) [] ts rest\<rparr>"
          by (simp add: inv_registry_def ops_defs)
      qed
    qed
  next
    fix doc settled ts rest
    show "inv_registry (next_chunk P doc (settled @ ts) rest (cr s))"
    proof (rule next_chunk_cases)
      from assms show "inv_registry (finish_document P doc (cr s))"
        by (simp add: inv_registry_def finish_document_frame finish_document_drv)
    next
      fix ch rest' ts' c1
      assume "start_chunk P ch (cr s) = (ts', c1)"
      from start_chunk_frame [OF this] start_chunk_task_ok [OF this] assms
      show "inv_registry \<lparr>cr = c1, drv = Downloading doc (settled @ ts) ts' rest'\<rparr>"
        by (simp add: inv_registry_def)
    qed
  qed (use assms in \<open>auto simp: inv_registry_def crash_def ops_defs page_phase_def split: driver.splits\<close>)
next
  fix doc settled ts rest i ev t' c'
  assume d: "drv s = Downloading doc settled ts rest" and i: "i < length ts"
    and t: "task_step P ev (ts ! i) (cr s) = (t', c')"
  from assms d have oks: "list_all task_ok ts" by (simp add: inv_registry_def)
  with i have ok: "task_ok (ts ! i)" by (simp add: list_all_length)
  from task_step_task_ok [OF t ok] oks have oks': "list_all task_ok (ts[i := t'])"
    by (rule list_all_update [rotated])
  from assms have reg: "\<And>u a. assets (cr s) u = Some a \<Longrightarrow> asset_ok u a"
    by (simp add: inv_registry_def)
  have "\<And>u a. assets c' u = Some a \<Longrightarrow> asset_ok u a"
    using task_step_assets [OF t] reg ok
    by (auto simp: asset_ok_def task_ok_def split: if_splits)
  with oks' show "inv_registry \<lparr>cr = c', drv = Downloading doc settled (ts[i := t']) rest\<rparr>"
    by (simp add: inv_registry_def)
qed

lemma inv_registry_start: "new_Crawler P u = Inr c \<Longrightarrow> inv_registry (start c)"
  by (auto simp: new_Crawler_def start_def inv_registry_def ops_defs split: option.splits)

lemma folder_path_inject:
  "getFolderForType x @ CHR ''/'' # n = getFolderForType y @ CHR ''/'' # m \<longleftrightarrow>
   getFolderForType x = getFolderForType y \<and> n = m"
  by (cases x; cases y) auto

section \<open>Claims on urls\<close>

lemma inv_fetch_same:
  "inv_fetch c \<Longrightarrow> requests c' = requests c \<or> (\<exists>k v. requests c' = requests c @ [(Suc k, v)]) \<Longrightarrow>
     visitedUrls c \<subseteq> visitedUrls c' \<Longrightarrow> url c' = url c \<Longrightarrow> inv_fetch c'"
  by (auto simp: inv_fetch_def fetched_def)

lemma inv_fetch_claim:
  assumes "inv_fetch c" and "v \<notin> visitedUrls c" and "requests c' = requests c @ [(0, v)]"
    and "visitedUrls c' = insert v (visitedUrls c)" and "url c' = url c"
  shows "inv_fetch c'"
proof -
  from assms(3) have f: "fetched c' = fetched c @ [v]" by (simp add: fetched_def)
  from assms(1) have ne: "fetched c \<noteq> []" by (simp add: inv_fetch_def)
  then have "tl (fetched c') = tl (fetched c) @ [v]" "hd (fetched c') = hd (fetched c)"
    using f by simp_all
  with assms ne f show ?thesis by (auto simp: inv_fetch_def)
qed

lemma downloadAsset_fetch:
  assumes "downloadAsset P v ty c = (t, c')" and "inv_fetch c"
  shows "inv_fetch c' \<and> visitedUrls c \<subseteq> visitedUrls c' \<and>
         (t_pc t \<noteq> Skipped \<longrightarrow> v \<notin> visitedUrls c \<and> v \<in> visitedUrls c') \<and> t_url t = v \<and> t_type t = ty"
proof (cases "v \<in> visitedUrls c")
  case True
  with assms show ?thesis by (auto simp: downloadAsset_def)
next
  case False
  with assms(1) have "requests c' = requests c @ [(0, v)]" "visitedUrls c' = insert v (visitedUrls c)"
    "url c' = url c" "t_url t = v" "t_type t = ty"
    by (auto simp: downloadAsset_def Let_def ops_defs split: prod.splits)
  with inv_fetch_claim [OF assms(2) False] False show ?thesis by auto
qed

lemma css_loop_fetch:
  "css_loop P u todo pcss c = (pc, c') \<Longrightarrow> inv_fetch c \<Longrightarrow>
     inv_fetch c' \<and> visitedUrls c \<subseteq> visitedUrls c'"
proof (induction P u todo pcss c rule: css_loop.induct)
  case (1 P cssUrl pcss c)
  then show ?case
    by (auto simp: inv_fetch_def fetched_def split: prod.splits)
next
  case (2 P cssUrl a rest pcss c)
  show ?case
  proof (cases "fst a \<in> visitedUrls c")
    case True
    with 2 show ?thesis by simp
  next
    case False
    with "2.prems"(1) have "c' = fetch 0 (fst a) (c\<lparr>visitedUrls := insert (fst a) (visitedUrls c)\<rparr>)"
      by simp
    then have "requests c' = requests c @ [(0, fst a)]"
      "visitedUrls c' = insert (fst a) (visitedUrls c)" "url c' = url c"
      by (simp_all add: ops_defs)
    with inv_fetch_claim [OF "2.prems"(2) False] show ?thesis by auto
  qed
qed

lemma processCssAssets_fetch:
  assumes "processCssAssets P css u c = (pc, c')" and "inv_fetch c"
  shows "inv_fetch c' \<and> visitedUrls c \<subseteq> visitedUrls c'"
proof -
  obtain todo n where e: "extract_refs P u (rng c) (scan 0 css) = (todo, n)"
    by (cases "extract_refs P u (rng c) (scan 0 css)")
  with assms(1) have l: "css_loop P u todo css (c\<lparr>rng := n\<rparr>) = (pc, c')"
    by (simp add: processCssAssets_def)
  from assms(2) have "inv_fetch (c\<lparr>rng := n\<rparr>)" by (simp add: inv_fetch_def fetched_def)
  from css_loop_fetch [OF l this] show ?thesis by simp
qed

lemma inv_fetch_ops:
  "inv_fetch c \<Longrightarrow> inv_fetch (log m l c)"
  "inv_fetch c \<Longrightarrow> inv_fetch (add_size n c)"
  "inv_fetch c \<Longrightarrow> inv_fetch (updateStats f c)"
  "inv_fetch c \<Longrightarrow> inv_fetch (zip_file p d c)"
  "inv_fetch c \<Longrightarrow> inv_fetch (store_asset t d c)"
  "inv_fetch c \<Longrightarrow> inv_fetch (fetch (Suc k) v c)"
  "inv_fetch c \<Longrightarrow> inv_fetch (c\<lparr>rng := r\<rparr>)"
  "inv_fetch c \<Longrightarrow> inv_fetch (c\<lparr>saved := x\<rparr>)"
  by (simp_all add: inv_fetch_def fetched_def ops_defs Let_def)

lemma visited_ops:
  "visitedUrls (log m l c) = visitedUrls c"
  "visitedUrls (add_size n c) = visitedUrls c"
  "visitedUrls (updateStats f c) = visitedUrls c"
  "visitedUrls (zip_file p d c) = visitedUrls c"
  "visitedUrls (store_asset t d c) = visitedUrls c"
  "visitedUrls (fetch k v c) = visitedUrls c"
  by (simp_all add: ops_defs Let_def)

lemma task_step_fetch:
  assumes "task_step P ev t c = (t', c')" and "inv_fetch c"
  shows "inv_fetch c' \<and> visitedUrls c \<subseteq> visitedUrls c'"
proof (cases "t_pc t")
  case (Resume d)
  with assms show ?thesis
    by (auto simp: task_step_def inv_fetch_ops visited_ops split: if_splits prod.splits
        dest: processCssAssets_fetch)
next
  case (CssResume a rest pcss d)
  show ?thesis
  proof (cases "ev = Tick")
    case True
    obtain fname n where g: "getFilenameFromUrl P (rng c) (fst a) Other = (fname, n)"
      by (cases "getFilenameFromUrl P (rng c) (fst a) Other")
    let ?c2 = "log (''Downloaded CSS asset: '' @ take 30 (fst a) @ ''...'') INFO
                 (zip_file (''assets/'' @ fname) (Blob d) (c\<lparr>rng := n\<rparr>))"
    obtain pc c3 where l: "css_loop P (t_url t) rest (split_join pcss (fst a) (snd a)) ?c2 = (pc, c3)"
      by (cases "css_loop P (t_url t) rest (split_join pcss (fst a) (snd a)) ?c2")
    from assms(1) CssResume True g l have "c' = c3" by (simp add: task_step_def)
    moreover from assms(2) have "inv_fetch ?c2" by (simp add: inv_fetch_ops)
    moreover have "visitedUrls ?c2 = visitedUrls c" by (simp add: visited_ops)
    ultimately show ?thesis using css_loop_fetch [OF l] by simp
  next
    case False
    with assms CssResume show ?thesis by (simp add: task_step_def)
  qed
next
  case (CssRejected a rest pcss)
  show ?thesis
  proof (cases "ev = Tick")
    case True
    let ?c1 = "log (''Failed CSS asset: '' @ fst a) WARNING c"
    obtain pc c2 where l: "css_loop P (t_url t) rest (split_join pcss (fst a) (snd a)) ?c1 = (pc, c2)"
      by (cases "css_loop P (t_url t) rest (split_join pcss (fst a) (snd a)) ?c1")
    from assms(1) CssRejected True l have "c' = c2" by (simp add: task_step_def)
    moreover from assms(2) have "inv_fetch ?c1" by (simp add: inv_fetch_ops)
    moreover have "visitedUrls ?c1 = visitedUrls c" by (simp add: visited_ops)
    ultimately show ?thesis using css_loop_fetch [OF l] by simp
  next
    case False
    with assms CssRejected show ?thesis by (simp add: task_step_def)
  qed
qed (use assms in \<open>auto simp: task_step_def inv_fetch_ops visited_ops split: if_splits event.splits\<close>)

lemma claimed_append: "claimed (a @ b) = claimed a @ claimed b"
  by (simp add: claimed_def)

lemma claimed_update:
  "i < length ts \<Longrightarrow> t_url t' = t_url (ts ! i) \<Longrightarrow>
     (t_pc t' = Skipped) = (t_pc (ts ! i) = Skipped) \<Longrightarrow> claimed (ts[i := t']) = claimed ts"
proof (induction ts arbitrary: i)
  case Nil
  then show ?case by simp
next
  case (Cons a ts)
  then show ?case by (cases i) (auto simp: claimed_def)
qed

lemma task_step_claim:
  assumes "task_step P ev t c = (t', c')"
  shows "t_url t' = t_url t \<and> t_type t' = t_type t \<and> (t_pc t' = Skipped) = (t_pc t = Skipped)"
proof -
  from task_step_fields [OF assms] have "t' = t\<lparr>t_pc := t_pc t'\<rparr>" .
  then have "t_url t' = t_url t \<and> t_type t' = t_type t"
    by (metis task.select_convs(1,2) task.surjective task.update_convs(5))
  moreover have "t_pc t = Skipped \<Longrightarrow> t_pc t' = Skipped"
    using assms task_step_terminal [of t P ev c] by (auto simp: terminal_def)
  ultimately show ?thesis using task_step_skipped [OF assms] by blast
qed

lemma start_chunk_claims:
  assumes "start_chunk P xs c = (ts, c')" and "inv_fetch c"
    and "distinct (claimed pre)" and "set (claimed pre) \<subseteq> visitedUrls c"
  shows "inv_fetch c' \<and> visitedUrls c \<subseteq> visitedUrls c' \<and>
         distinct (claimed (pre @ ts)) \<and> set (claimed (pre @ ts)) \<subseteq> visitedUrls c' \<and>
         map key ts = xs"
  using assms
proof (induction xs arbitrary: c ts pre c')
  case Nil
  then show ?case by simp
next
  case (Cons x xs)
  obtain t c1 where d: "downloadAsset P (fst x) (snd x) c = (t, c1)"
    by (cases "downloadAsset P (fst x) (snd x) c")
  obtain ts1 c2 where r: "start_chunk P xs c1 = (ts1, c2)"
    by (cases "start_chunk P xs c1")
  from Cons.prems(1) d r have ts: "ts = t # ts1" and c': "c' = c2" by simp_all
  note f = downloadAsset_fetch [OF d Cons.prems(2)]
  have "distinct (claimed (pre @ [t])) \<and> set (claimed (pre @ [t])) \<subseteq> visitedUrls c1"
    using f Cons.prems(3,4) by (auto simp: claimed_def)
  with Cons.IH [OF r, of "pre @ [t]"] f
  have "inv_fetch c2 \<and> visitedUrls c1 \<subseteq> visitedUrls c2 \<and>
        distinct (claimed ((pre @ [t]) @ ts1)) \<and> set (claimed ((pre @ [t]) @ ts1)) \<subseteq> visitedUrls c2 \<and>
        map key ts1 = xs"
    by blast
  with f ts c' show ?case by (auto simp: key_def)
qed

lemma url_frame:
  "url (log m l c) = url c" "url (add_size n c) = url c" "url (updateStats f c) = url c"
  "url (zip_file p d c) = url c" "url (store_asset t d c) = url c" "url (fetch k v c) = url c"
  by (simp_all add: ops_defs Let_def)

lemma inv_claims_next_chunk:
  assumes "inv_fetch c" and "distinct (claimed settled)" and "set (claimed settled) \<subseteq> visitedUrls c"
  shows "inv_claims (next_chunk P doc settled cs c)"
proof (rule next_chunk_cases)
  from assms(1) show "inv_claims (finish_document P doc c)"
    by (simp add: inv_claims_def finish_document_def Let_def inv_fetch_ops)
next
  fix ch rest ts c1
  assume "start_chunk P ch c = (ts, c1)"
  from start_chunk_claims [OF this assms]
  show "inv_claims \<lparr>cr = c1, drv = Downloading doc settled ts rest\<rparr>"
    by (simp add: inv_claims_def)
qed

lemma inv_claims_step:
  assumes "inv_claims s"
  shows "inv_claims (step P e s)"
proof (rule step_cases)
  show "inv_claims s" by fact
next
  fix ev
  from assms have f: "inv_fetch (cr s)" by (simp add: inv_claims_def)
  show "inv_claims (driver_step P ev s)"
  proof (rule driver_step_cases)
    show "inv_claims s" by fact
  next
    fix h
    show "inv_claims (page_loaded P h (cr s))"
    proof (rule page_loaded_cases)
      fix c2
      assume "c2 = updateStats (\<lambda>s. s\<lparr>pagesScanned := 1\<rparr>)
                    (log ''Main HTML downloaded successfully.'' SUCCESS (cr s))"
      with f show "inv_claims (crash (url_error P) c2)"
        by (simp add: inv_claims_def crash_def inv_fetch_ops)
    next
      fix c3 and q :: "(string \<times> asset_type) list"
      assume c3: "c3 = log (''Found '' @ show_nat (length q) @ '' linked assets. Downloading...'') INFO
                    (updateStats (\<lambda>s. s\<lparr>assetsFound := length q\<rparr>)
                      (updateStats (\<lambda>s. s\<lparr>pagesScanned := 1\<rparr>)
                        (log ''Main HTML downloaded successfully.'' SUCCESS (cr s))))"
      with f have "inv_fetch c3" by (simp add: inv_fetch_ops)
      then show "inv_claims (next_chunk P (parseFromString P h) [] (chunks q) c3)"
        by (rule inv_claims_next_chunk) (simp_all add: claimed_def)
    qed
  next
    fix doc settled ts rest
    assume "drv s = Downloading doc settled ts rest"
    with assms show "inv_claims (next_chunk P doc (settled @ ts) rest (cr s))"
      by (intro inv_claims_next_chunk) (simp_all add: inv_claims_def)
  next
    fix k
    assume "drv s = PageFetch k"
    with f show "inv_claims \<lparr>cr = fetch (Suc k) (href (url (cr s))) (cr s), drv = PageFetch (Suc k)\<rparr>"
      by (simp add: inv_claims_def inv_fetch_ops)
  qed (use assms in \<open>auto simp: inv_claims_def crash_def inv_fetch_ops page_phase_def split: driver.splits\<close>)
next
  fix doc settled ts rest i ev t' c'
  assume d: "drv s = Downloading doc settled ts rest" and i: "i < length ts"
    and t: "task_step P ev (ts ! i) (cr s) = (t', c')"
  from assms have f: "inv_fetch (cr s)" by (simp add: inv_claims_def)
  note tf = task_step_fetch [OF t f]
  note tc = task_step_claim [OF t]
  from tc i have "claimed (ts[i := t']) = claimed ts" by (intro claimed_update) simp_all
  with assms d tf show "inv_claims \<lparr>cr = c', drv = Downloading doc settled (ts[i := t']) rest\<rparr>"
    by (auto simp: inv_claims_def claimed_append)
qed

lemma inv_claims_start: "new_Crawler P u = Inr c \<Longrightarrow> inv_claims (start c)"
  by (auto simp: new_Crawler_def start_def inv_claims_def inv_fetch_def fetched_def ops_defs
      split: option.splits)

lemma url_step: "url (cr (step P e s)) = url (cr s)"
proof (rule step_cases [where Q = "\<lambda>x. url (cr x) = url (cr s)"])
  fix ev
  show "url (cr (driver_step P ev s)) = url (cr s)"
  proof (rule driver_step_cases [where Q = "\<lambda>x. url (cr x) = url (cr s)"])
    fix h
    show "url (cr (page_loaded P h (cr s))) = url (cr s)"
    proof (rule page_loaded_cases [where Q = "\<lambda>x. url (cr x) = url (cr s)"])
      fix c3 and q :: "(string \<times> asset_type) list"
      assume c3: "c3 = log (''Found '' @ show_nat (length q) @ '' linked assets. Downloading...'') INFO
                    (updateStats (\<lambda>s. s\<lparr>assetsFound := length q\<rparr>)
                      (updateStats (\<lambda>s. s\<lparr>pagesScanned := 1\<rparr>)
                        (log ''Main HTML downloaded successfully.'' SUCCESS (cr s))))"
      show "url (cr (next_chunk P (parseFromString P h) [] (chunks q) c3)) = url (cr s)"
      proof (rule next_chunk_cases [where Q = "\<lambda>x. url (cr x) = url (cr s)"])
        fix ch rest ts c1
        assume "start_chunk P ch c3 = (ts, c1)"
        from start_chunk_frame [OF this] c3
        show "url (cr \<lparr>cr = c1, drv = Downloading (parseFromString P h) [] ts rest\<rparr>) = url (cr s)"
          by (simp add: url_frame)
      qed (simp add: finish_document_frame c3 url_frame)
    qed (simp add: crash_def url_frame)
  next
    fix doc settled ts rest
    show "url (cr (next_chunk P doc (settled @ ts) rest (cr s))) = url (cr s)"
    proof (rule next_chunk_cases [where Q = "\<lambda>x. url (cr x) = url (cr s)"])
      fix ch rest' ts' c1
      assume "start_chunk P ch (cr s) = (ts', c1)"
      from start_chunk_frame [OF this]
      show "url (cr \<lparr>cr = c1, drv = Downloading doc (settled @ ts) ts' rest'\<rparr>) = url (cr s)"
        by simp
    qed (simp add: finish_document_frame)
  qed (simp_all add: crash_def url_frame)
next
  fix doc settled ts rest i ev t' c'
  assume "task_step P ev (ts ! i) (cr s) = (t', c')"
  then have "url c' = url (cr s)"
    apply (cases "t_pc (ts ! i)")
    apply (auto simp: task_step_def url_frame split: if_splits event.splits prod.splits
        dest!: css_loop_frame processCssAssets_frame)
    done
  then show "url (cr \<lparr>cr = c', drv = Downloading doc settled (ts[i := t']) rest\<rparr>) = url (cr s)"
    by simp
qed simp

lemma url_run: "url (cr (run P evs s)) = url (cr s)"
  unfolding run_def by (induction evs arbitrary: s) (simp_all add: url_step)

section \<open>Chunks\<close>

lemma chunks_Cons:
  "chunks xs = ch # rest \<Longrightarrow> xs \<noteq> [] \<and> ch = take CONCURRENCY xs \<and> rest = chunks (drop CONCURRENCY xs)"
  by (subst (asm) chunks.simps) (auto split: if_splits)

lemma chunks_sizes: "\<forall>ch \<in> set (chunks xs). 0 < length ch \<and> length ch \<le> CONCURRENCY"
proof (induction xs rule: chunks.induct)
  case (1 xs)
  show ?case
  proof (cases "xs = []")
    case True
    then show ?thesis by (simp add: chunks.simps)
  next
    case False
    with 1 show ?thesis by (subst chunks.simps) (auto simp: CONCURRENCY_def)
  qed
qed

lemma chunks_of_concat: "chunks (concat (chunks xs)) = chunks xs"
  by (simp add: chunks_concat)

lemma chunks_rest:
  assumes "ch # rest = chunks (ch @ concat rest)"
  shows "rest = chunks (concat rest) \<and> (rest \<noteq> [] \<longrightarrow> length ch = CONCURRENCY) \<and>
         0 < length ch \<and> length ch \<le> CONCURRENCY \<and>
         (\<forall>x \<in> set rest. 0 < length x \<and> length x \<le> CONCURRENCY)"
proof -
  let ?xs = "ch @ concat rest"
  from assms have c: "chunks ?xs = ch # rest" by simp
  from chunks_Cons [OF c] have ch: "ch = take CONCURRENCY ?xs" and r: "rest = chunks (drop CONCURRENCY ?xs)"
    by simp_all
  have "concat (chunks ?xs) = ?xs" by (rule chunks_concat)
  with c have "concat rest = drop CONCURRENCY ?xs"
    using ch by (metis append_take_drop_id concat.simps(2) same_append_eq)
  with r have r1: "rest = chunks (concat rest)" by simp
  have sz: "\<forall>x \<in> set (ch # rest). 0 < length x \<and> length x \<le> CONCURRENCY"
    using chunks_sizes [of ?xs] c by simp
  have "rest \<noteq> [] \<Longrightarrow> length ch = CONCURRENCY"
  proof -
    assume "rest \<noteq> []"
    with r have "drop CONCURRENCY ?xs \<noteq> []" by (auto simp: chunks.simps)
    then have "CONCURRENCY < length ?xs" by (meson drop_all not_le_imp_less)
    with ch show ?thesis by (metis length_take min.absorb4)
  qed
  with r1 sz show ?thesis by simp
qed

lemma start_chunk_keys: "start_chunk P xs c = (ts, c') \<Longrightarrow> map key ts = xs"
proof (induction xs arbitrary: c ts c')
  case Nil
  then show ?case by simp
next
  case (Cons x xs)
  obtain t c1 where d: "downloadAsset P (fst x) (snd x) c = (t, c1)"
    by (cases "downloadAsset P (fst x) (snd x) c")
  obtain ts1 c2 where r: "start_chunk P xs c1 = (ts1, c2)"
    by (cases "start_chunk P xs c1")
  from Cons.prems d r have "ts = t # ts1" by simp
  moreover from d have "key t = x"
    by (auto simp: downloadAsset_def key_def Let_def split: if_splits prod.splits)
  ultimately show ?case using Cons.IH [OF r] by simp
qed

lemma inv_chunks_next_chunk:
  assumes "cs = chunks (concat cs)" and "list_all terminal settled"
    and "cs \<noteq> [] \<longrightarrow> length settled mod CONCURRENCY = 0"
    and "length settled + length (concat cs) = assetsFound (stats c)"
  shows "inv_chunks (next_chunk P doc settled cs c)"
proof (rule next_chunk_cases)
  show "inv_chunks (finish_document P doc c)"
    by (simp add: inv_chunks_def finish_document_drv)
next
  fix ch rest ts c1
  assume cs: "cs = ch # rest" and sc: "start_chunk P ch c = (ts, c1)"
  from start_chunk_keys [OF sc] have k: "map key ts = ch" .
  then have l: "length ts = length ch" by (metis length_map)
  from assms(1) cs k have m: "map key ts # rest = chunks (map key ts @ concat rest)" by simp
  from assms(3) cs have z: "length settled mod CONCURRENCY = 0" by simp
  from assms(4) cs l have n: "length settled + length ts + length (concat rest) = assetsFound (stats c)"
    by simp
  from start_chunk_frame [OF sc] have "stats c1 = stats c" by simp
  with m z n assms(2)
  show "inv_chunks \<lparr>cr = c1, drv = Downloading doc settled ts rest\<rparr>"
    by (simp add: inv_chunks_def)
qed

lemma update_keys:
  "i < length ts \<Longrightarrow> key t' = key (ts ! i) \<Longrightarrow> map key (ts[i := t']) = map key ts"
  by (simp add: map_update list_update_same_conv)

lemma inv_chunks_step:
  assumes "inv_chunks s"
  shows "inv_chunks (step P e s)"
proof (rule step_cases)
  show "inv_chunks s" by fact
next
  fix ev
  show "inv_chunks (driver_step P ev s)"
  proof (rule driver_step_cases)
    show "inv_chunks s" by fact
  next
    fix h
    show "inv_chunks (page_loaded P h (cr s))"
    proof (rule page_loaded_cases)
      fix c2 :: crawler
      show "inv_chunks (crash (url_error P) c2)" by (simp add: inv_chunks_def crash_def)
    next
      fix c3 and q :: "(string \<times> asset_type) list"
      assume c3: "c3 = log (''Found '' @ show_nat (length q) @ '' linked assets. Downloading...'') INFO
                    (updateStats (\<lambda>s. s\<lparr>assetsFound := length q\<rparr>)
                      (updateStats (\<lambda>s. s\<lparr>pagesScanned := 1\<rparr>)
                        (log ''Main HTML downloaded successfully.'' SUCCESS (cr s))))"
      show "inv_chunks (next_chunk P (parseFromString P h) [] (chunks q) c3)"
        by (rule inv_chunks_next_chunk) (simp_all add: chunks_concat c3 ops_defs)
    qed
  next
    fix doc settled ts rest
    assume d: "drv s = Downloading doc settled ts rest" and t: "list_all terminal ts"
    from assms d have i: "list_all terminal settled"
      "map key ts # rest = chunks (map key ts @ concat rest)"
      "length settled mod CONCURRENCY = 0"
      "length settled + length ts + length (concat rest) = assetsFound (stats (cr s))"
      by (simp_all add: inv_chunks_def)
    from chunks_rest [OF i(2)] have r: "rest = chunks (concat rest)"
      "rest \<noteq> [] \<longrightarrow> length ts = CONCURRENCY" by simp_all
    show "inv_chunks (next_chunk P doc (settled @ ts) rest (cr s))"
    proof (rule inv_chunks_next_chunk)
      show "rest = chunks (concat rest)" by (rule r(1))
      from i(1) t show "list_all terminal (settled @ ts)" by simp
      from r(2) i(3) show "rest \<noteq> [] \<longrightarrow> length (settled @ ts) mod CONCURRENCY = 0"
        by (auto simp: mod_add_left_eq [symmetric])
      from i(4) show "length (settled @ ts) + length (concat rest) = assetsFound (stats (cr s))"
        by simp
    qed
  qed (use assms in \<open>auto simp: inv_chunks_def crash_def page_phase_def split: driver.splits\<close>)
next
  fix doc settled ts rest i ev t' c'
  assume d: "drv s = Downloading doc settled ts rest" and i: "i < length ts"
    and t: "task_step P ev (ts ! i) (cr s) = (t', c')"
  from task_step_claim [OF t] have "key t' = key (ts ! i)" by (simp add: key_def)
  with i have "map key (ts[i := t']) = map key ts" by (rule update_keys)
  with assms d task_step_found [OF t]
  show "inv_chunks \<lparr>cr = c', drv = Downloading doc settled (ts[i := t']) rest\<rparr>"
    by (simp add: inv_chunks_def)
qed

lemma inv_chunks_start: "inv_chunks (start c)"
  by (simp add: start_def inv_chunks_def)

lemma driver_waits:
  "drv s = Downloading doc settled ts rest \<Longrightarrow> \<not> list_all terminal ts \<Longrightarrow> driver_step P ev s = s"
  by (simp add: driver_step_def)

section \<open>Accounting of attempts, failures and downloads\<close>

lemmas log_count_defs = attempts_def failures_def is_start_def is_failure_def startsWith_def

lemma task_step_logs:
  "task_step P ev t c = (t', c') \<Longrightarrow>
     attempts c' = attempts c \<and>
     failures c' = failures c + (if t_pc t' = Failed \<and> t_pc t \<noteq> Failed then 1 else 0)"
  apply (cases "t_pc t")
  apply (auto simp: task_step_def ops_defs log_count_defs split: if_splits event.splits prod.splits
      dest!: css_loop_frame processCssAssets_frame)
  done

lemma task_step_pend:
  "task_step P ev t c = (t', c') \<Longrightarrow>
     pend t = pend t' + (if t_pc t' = Succeeded \<and> t_pc t \<noteq> Succeeded then 1 else 0)
                     + (if t_pc t' = Failed \<and> t_pc t \<noteq> Failed then 1 else 0)"
  apply (cases "t_pc t")
  apply (auto simp: task_step_def pend_def terminal_def split: if_splits event.splits prod.splits
      dest!: css_loop_frame processCssAssets_frame)
  done

lemma count_pc_update:
  "i < length ts \<Longrightarrow>
     count_pc Q (ts[i := x]) + (if Q (t_pc (ts ! i)) then 1 else 0) =
     count_pc Q ts + (if Q (t_pc x) then 1 else 0)"
proof (induction ts arbitrary: i)
  case Nil
  then show ?case by simp
next
  case (Cons a ts)
  show ?case
  proof (cases i)
    case 0
    then show ?thesis by (simp add: count_pc_def)
  next
    case (Suc j)
    with Cons.prems have "j < length ts" by simp
    from Cons.IH [OF this] Suc show ?thesis by (simp add: count_pc_def)
  qed
qed

lemma count_pc_append: "count_pc Q (a @ b) = count_pc Q a + count_pc Q b"
  by (simp add: count_pc_def)

lemma downloadAsset_counts:
  "downloadAsset P v ty c = (t, c') \<Longrightarrow>
     attempts c' = attempts c + pend t \<and> failures c' = failures c \<and>
     t_pc t \<noteq> Succeeded \<and> t_pc t \<noteq> Failed \<and> pend t = (if t_pc t \<noteq> Skipped then 1 else 0)"
  by (auto simp: downloadAsset_def Let_def ops_defs log_count_defs pend_def terminal_def
      split: if_splits prod.splits)

lemma start_chunk_counts:
  "start_chunk P xs c = (ts, c') \<Longrightarrow>
     attempts c' = attempts c + sum_list (map pend ts) \<and> failures c' = failures c \<and>
     count_pc (\<lambda>p. p = Succeeded) ts = 0 \<and> count_pc (\<lambda>p. p = Failed) ts = 0 \<and>
     count_pc (\<lambda>p. p \<noteq> Skipped) ts = sum_list (map pend ts) \<and> length ts = length xs"
proof (induction xs arbitrary: c ts c')
  case Nil
  then show ?case by (simp add: count_pc_def)
next
  case (Cons x xs)
  obtain t c1 where d: "downloadAsset P (fst x) (snd x) c = (t, c1)"
    by (cases "downloadAsset P (fst x) (snd x) c")
  obtain ts1 c2 where r: "start_chunk P xs c1 = (ts1, c2)"
    by (cases "start_chunk P xs c1")
  from Cons.prems d r have "ts = t # ts1" "c' = c2" by simp_all
  with Cons.IH [OF r] downloadAsset_counts [OF d] show ?case
    by (simp add: count_pc_def)
qed

lemma sum_pend_le: "sum_list (map pend ts) \<le> length ts"
  by (induction ts) (auto simp: pend_def)

lemma inv_account_finish:
  "attempts c \<le> assetsFound (stats c) \<Longrightarrow> attempts c = assetsDownloaded (stats c) + failures c \<Longrightarrow>
     inv_account (finish_document P doc c)"
  by (simp add: inv_account_def finish_document_def Let_def ops_defs log_count_defs page_phase_def)

lemma inv_account_crash:
  "attempts c \<le> assetsFound (stats c) \<Longrightarrow> attempts c = assetsDownloaded (stats c) + failures c \<Longrightarrow>
     inv_account (crash m c)"
  by (simp add: inv_account_def crash_def ops_defs log_count_defs page_phase_def)

lemma inv_account_next_chunk:
  assumes "attempts c + length (concat cs) \<le> assetsFound (stats c)"
    and "assetsDownloaded (stats c) = count_pc (\<lambda>p. p = Succeeded) settled"
    and "failures c = count_pc (\<lambda>p. p = Failed) settled"
    and "attempts c = count_pc (\<lambda>p. p \<noteq> Skipped) settled"
    and "attempts c = assetsDownloaded (stats c) + failures c"
  shows "inv_account (next_chunk P doc settled cs c)"
proof (rule next_chunk_cases)
  assume "cs = []"
  with assms(1,5) show "inv_account (finish_document P doc c)"
    by (intro inv_account_finish) simp_all
next
  fix ch rest ts c1
  assume cs: "cs = ch # rest" and sc: "start_chunk P ch c = (ts, c1)"
  note k = start_chunk_counts [OF sc]
  from start_chunk_frame [OF sc] have st: "stats c1 = stats c" by simp
  have "sum_list (map pend ts) \<le> length ch" using sum_pend_le [of ts] k by simp
  with assms(1) cs k have a: "attempts c1 + length (concat rest) \<le> assetsFound (stats c)" by simp
  from a k st assms(2-5)
  show "inv_account \<lparr>cr = c1, drv = Downloading doc settled ts rest\<rparr>"
    by (simp add: inv_account_def page_phase_def count_pc_append)
qed

lemma all_terminal_pend: "list_all terminal ts \<Longrightarrow> sum_list (map pend ts) = 0"
  by (induction ts) (auto simp: pend_def)

lemma inv_account_step:
  assumes "inv_account s"
  shows "inv_account (step P e s)"
proof (rule step_cases)
  show "inv_account s" by fact
next
  fix ev
  show "inv_account (driver_step P ev s)"
  proof (rule driver_step_cases)
    show "inv_account s" by fact
  next
    fix h
    assume d: "drv s = PageResume h"
    with assms have z: "attempts (cr s) = 0" "assetsDownloaded (stats (cr s)) = 0" "failures (cr s) = 0"
      by (simp_all add: inv_account_def page_phase_def)
    show "inv_account (page_loaded P h (cr s))"
    proof (rule page_loaded_cases)
      fix c2
      assume "c2 = updateStats (\<lambda>s. s\<lparr>pagesScanned := 1\<rparr>)
                    (log ''Main HTML downloaded successfully.'' SUCCESS (cr s))"
      with z show "inv_account (crash (url_error P) c2)"
        by (intro inv_account_crash) (simp_all add: ops_defs log_count_defs)
    next
      fix c3 and q :: "(string \<times> asset_type) list"
      assume c3: "c3 = log (''Found '' @ show_nat (length q) @ '' linked assets. Downloading...'') INFO
                    (updateStats (\<lambda>s. s\<lparr>assetsFound := length q\<rparr>)
                      (updateStats (\<lambda>s. s\<lparr>pagesScanned := 1\<rparr>)
                        (log ''Main HTML downloaded successfully.'' SUCCESS (cr s))))"
      with z have "attempts c3 = 0" "assetsDownloaded (stats c3) = 0" "failures c3 = 0"
        "assetsFound (stats c3) = length q"
        by (simp_all add: ops_defs log_count_defs)
      then show "inv_account (next_chunk P (parseFromString P h) [] (chunks q) c3)"
        by (intro inv_account_next_chunk) (simp_all add: chunks_concat count_pc_def)
    qed
  next
    fix doc settled ts rest
    assume d: "drv s = Downloading doc settled ts rest" and t: "list_all terminal ts"
    from assms d all_terminal_pend [OF t]
    show "inv_account (next_chunk P doc (settled @ ts) rest (cr s))"
      by (intro inv_account_next_chunk) (simp_all add: inv_account_def)
  next
    fix m
    assume "drv s = PageRejected m \<or> drv s = Compressing"
    with assms show "inv_account (crash m (cr s))"
      by (intro inv_account_crash) (auto simp: inv_account_def page_phase_def)
  qed (use assms in \<open>auto simp: inv_account_def ops_defs log_count_defs page_phase_def split: driver.splits\<close>)
next
  fix doc settled ts rest i ev t' c'
  assume d: "drv s = Downloading doc settled ts rest" and i: "i < length ts"
    and t: "task_step P ev (ts ! i) (cr s) = (t', c')"
  let ?t = "ts ! i"
  define sN where "sN = ind (t_pc t' = Succeeded \<and> t_pc ?t \<noteq> Succeeded)"
  define fN where "fN = ind (t_pc t' = Failed \<and> t_pc ?t \<noteq> Failed)"
  from task_step_logs [OF t] have l1: "attempts c' = attempts (cr s)"
    and l2: "failures c' = failures (cr s) + fN"
    by (simp_all add: fN_def ind_def)
  from task_step_pend [OF t] have p: "pend ?t = pend t' + sN + fN"
    by (simp add: sN_def fN_def ind_def)
  from task_step_downloaded [OF t]
  have dl: "assetsDownloaded (stats c') = assetsDownloaded (stats (cr s)) + sN"
    by (simp add: sN_def ind_def)
  note fd = task_step_found [OF t]
  note sk = task_step_claim [OF t]
  have st: "t_pc ?t = Succeeded \<Longrightarrow> t_pc t' = Succeeded" "t_pc ?t = Failed \<Longrightarrow> t_pc t' = Failed"
    using t task_step_terminal [of ?t P ev "cr s"] by (simp_all add: terminal_def)
  have i1: "ind (t_pc t' = Succeeded) = ind (t_pc ?t = Succeeded) + sN"
    using st(1) by (cases "t_pc ?t = Succeeded") (simp_all add: sN_def ind_def)
  have i2: "ind (t_pc t' = Failed) = ind (t_pc ?t = Failed) + fN"
    using st(2) by (cases "t_pc ?t = Failed") (simp_all add: fN_def ind_def)
  have i3: "ind (t_pc t' \<noteq> Skipped) = ind (t_pc ?t \<noteq> Skipped)"
    using sk by simp
  from count_pc_update [OF i, of "\<lambda>p. p = Succeeded" t']
  have u1: "count_pc (\<lambda>p. p = Succeeded) (ts[i := t']) + ind (t_pc ?t = Succeeded) =
      count_pc (\<lambda>p. p = Succeeded) ts + ind (t_pc t' = Succeeded)"
    by (simp add: ind_def)
  from count_pc_update [OF i, of "\<lambda>p. p = Failed" t']
  have u2: "count_pc (\<lambda>p. p = Failed) (ts[i := t']) + ind (t_pc ?t = Failed) =
      count_pc (\<lambda>p. p = Failed) ts + ind (t_pc t' = Failed)"
    by (simp add: ind_def)
  from count_pc_update [OF i, of "\<lambda>p. p \<noteq> Skipped" t']
  have u3: "count_pc (\<lambda>p. p \<noteq> Skipped) (ts[i := t']) + ind (t_pc ?t \<noteq> Skipped) =
      count_pc (\<lambda>p. p \<noteq> Skipped) ts + ind (t_pc t' \<noteq> Skipped)"
    by (simp add: ind_def)
  note u4 = pend_update [OF i, of t']
  from assms d have a: "attempts (cr s) + length (concat rest) \<le> assetsFound (stats (cr s))"
    "assetsDownloaded (stats (cr s)) = count_pc (\<lambda>p. p = Succeeded) settled + count_pc (\<lambda>p. p = Succeeded) ts"
    "failures (cr s) = count_pc (\<lambda>p. p = Failed) settled + count_pc (\<lambda>p. p = Failed) ts"
    "attempts (cr s) = count_pc (\<lambda>p. p \<noteq> Skipped) settled + count_pc (\<lambda>p. p \<noteq> Skipped) ts"
    "attempts (cr s) = assetsDownloaded (stats (cr s)) + failures (cr s) + sum_list (map pend ts)"
    by (simp_all add: inv_account_def count_pc_append)
  have 1: "attempts c' + length (concat rest) \<le> assetsFound (stats c')"
    using a(1) l1 fd by simp
  have 2: "assetsDownloaded (stats c') =
      count_pc (\<lambda>p. p = Succeeded) settled + count_pc (\<lambda>p. p = Succeeded) (ts[i := t'])"
    using a(2) dl u1 i1 by linarith
  have 3: "failures c' = count_pc (\<lambda>p. p = Failed) settled + count_pc (\<lambda>p. p = Failed) (ts[i := t'])"
    using a(3) l2 u2 i2 by linarith
  have 4: "attempts c' = count_pc (\<lambda>p. p \<noteq> Skipped) settled + count_pc (\<lambda>p. p \<noteq> Skipped) (ts[i := t'])"
    using a(4) l1 u3 i3 by linarith
  have 5: "attempts c' = assetsDownloaded (stats c') + failures c' + sum_list (map pend (ts[i := t']))"
    using a(5) l1 l2 dl p u4 by linarith
  from 1 2 3 4 5 show "inv_account \<lparr>cr = c', drv = Downloading doc settled (ts[i := t']) rest\<rparr>"
    by (simp add: inv_account_def page_phase_def count_pc_append)
qed

lemma inv_account_start: "new_Crawler P u = Inr c \<Longrightarrow> inv_account (start c)"
  by (auto simp: new_Crawler_def start_def inv_account_def page_phase_def ops_defs log_count_defs
      split: option.splits)

lemma inv_account_run:
  "new_Crawler P u = Inr c \<Longrightarrow> inv_account (run P evs (start c))"
  by (rule run_invariant [where Q = inv_account]) (simp_all add: inv_account_start inv_account_step)

lemma task_event_drv:
  "drv s = Downloading doc settled ts rest \<Longrightarrow> i < length ts \<Longrightarrow>
     step P (Task i, ev) s =
       \<lparr>cr = snd (task_step P ev (ts ! i) (cr s)),
        drv = Downloading doc settled (ts[i := fst (task_step P ev (ts ! i) (cr s))]) rest\<rparr>"
  by (simp add: step_def split: prod.splits)

lemma last_relay_fails:
  "t_pc t = AwaitFetch k \<Longrightarrow> \<not> Suc k < PROXIES \<Longrightarrow> fetch_failed ev \<Longrightarrow>
     task_step P ev t c = (t\<lparr>t_pc := Rejected (all_failed (t_url t) ev)\<rparr>, c)"
  by (auto simp: task_step_def fetch_failed_def split: event.splits)

lemma rejected_is_logged:
  "t_pc t = Rejected m \<Longrightarrow>
     task_step P Tick t c =
       (t\<lparr>t_pc := Failed\<rparr>, log (''Failed to download '' @ t_url t @ '': '' @ m) WARNING c)"
  by (simp add: task_step_def)

lemma settled_chunk_moves_on:
  assumes "drv s = Downloading doc settled ts rest" and "list_all terminal ts"
  shows "drv (step P (Driver, Tick) s) = Compressing \<or>
         (\<exists>ts' rest'. drv (step P (Driver, Tick) s) = Downloading doc (settled @ ts) ts' rest')"
proof -
  from assms have e: "step P (Driver, Tick) s = next_chunk P doc (settled @ ts) rest (cr s)"
    by (simp add: step_def driver_step_def)
  show ?thesis unfolding e
    by (rule next_chunk_cases) (simp_all add: finish_document_drv)
qed

lemma zip_ok_finishes: "drv s = Compressing \<Longrightarrow> drv (step P (Driver, ZipOk) s) = Finished"
  by (simp add: step_def driver_step_def)

lemma task_step_total:
  "task_step P ev t c = (t', c') \<Longrightarrow>
     totalSize (stats c') = totalSize (stats c) + body_size (t_pc t) ev"
  apply (cases "t_pc t")
  apply (auto simp: task_step_def ops_defs body_size_def split: if_splits event.splits prod.splits
      dest!: css_loop_frame processCssAssets_frame)
  done

lemma task_step_after_body:
  "task_step P ev t c = (t', c') \<Longrightarrow> \<not> before_body t \<Longrightarrow> \<not> before_body t'"
  apply (cases "t_pc t")
  apply (auto simp: task_step_def before_body_def split: if_splits event.splits prod.splits
      dest!: css_loop_frame processCssAssets_frame)
  done

lemma task_step_own_body:
  "task_step P ev t c = (t', c') \<Longrightarrow> before_body t \<Longrightarrow> \<not> before_body t' \<Longrightarrow>
     (\<exists>m. t_pc t' = Rejected m) \<or> (\<exists>d. ev = BodyOk d \<and> t_pc t = AwaitBody \<and> t_pc t' = Resume d)"
  apply (cases "t_pc t")
  apply (auto simp: task_step_def before_body_def split: if_splits event.splits prod.splits)
  done

lemma task_step_rejected:
  "task_step P ev t c = (t', c') \<Longrightarrow> t_pc t = Rejected m \<Longrightarrow>
     t_pc t' = Rejected m \<or> t_pc t' = Failed"
  by (auto simp: task_step_def split: if_splits)

lemma downloadAsset_start_line:
  "v \<notin> visitedUrls c \<Longrightarrow>
     logs (snd (downloadAsset P v ty c)) =
       logs c @ [\<lparr>message = ''Fetching '' @ take 50 v @ ''...'', level = INFO\<rparr>] \<and>
     t_pc (fst (downloadAsset P v ty c)) = AwaitFetch 0"
  by (simp add: downloadAsset_def Let_def ops_defs split: prod.splits)

lemma downloadAsset_skips:
  "v \<in> visitedUrls c \<Longrightarrow>
     snd (downloadAsset P v ty c) = c \<and> t_pc (fst (downloadAsset P v ty c)) = Skipped"
  by (simp add: downloadAsset_def)

section \<open>The claims\<close>

text \<open>
  C1. In every session, whatever events arrive and in whatever order, every snapshot
  handed to \<^verbatim>\<open>onStatsUpdate\<close> has \<open>assetsDownloaded \<le> assetsFound\<close>, and so have the
  counters themselves; the bytes of stylesheet sub-assets only move \<open>totalSize\<close>.
\<close>

theorem stats_downloaded_le_found:
  assumes "new_Crawler P u = Inr c"
  shows "(\<forall>x \<in> set (snapshots (cr (run P evs (start c)))). assetsDownloaded x \<le> assetsFound x) \<and>
         assetsDownloaded (stats (cr (run P evs (start c)))) \<le>
           assetsFound (stats (cr (run P evs (start c))))"
proof -
  from assms have "inv_stats (run P evs (start c))" by (intro run_inv_stats start_inv_stats)
  then show ?thesis by (simp add: inv_stats_def stats_ok_def list_all_iff)
qed

theorem stats_downloaded_le_found_witness:
  "new_Crawler demo ''https://example.com/'' = Inr demo_crawler \<and>
   length (snapshots (cr (run demo stylesheet_events (start demo_crawler)))) = 6 \<and>
   list_all (\<lambda>x. assetsDownloaded x \<le> assetsFound x)
     (snapshots (cr (run demo stylesheet_events (start demo_crawler))))"
proof -
  have h: "new_Crawler demo ''https://example.com/'' = Inr demo_crawler"
    by (simp add: new_Crawler_def demo_def demo_new_URL_def startsWith_def demo_crawler_def)
  have n: "length (snapshots (cr (run demo stylesheet_events (start demo_crawler)))) = 6"
    by code_simp
  from h n stats_downloaded_le_found [OF h, of stylesheet_events] show ?thesis
    by (simp add: list_all_iff)
qed

text \<open>
  C9. A string that the URL parser rejects makes the constructor of the crawler throw
  \<^verbatim>\<open>Error("Invalid URL provided")\<close>; \<^verbatim>\<open>handleStart\<close>, given such a non-empty string,
  ends in the error state whatever events follow, with no log line, no counter update
  and no network request.
\<close>

theorem invalid_url_fails_before_any_request:
  assumes "new_URL P u = None"
  shows "new_Crawler P u = Inl (Error ''Invalid URL provided'') \<and>
         (u \<noteq> [] \<longrightarrow>
            handleStart P u evs a =
              (\<lparr>appState = ERROR_STATE, app_logs = [], app_stats = zero_stats\<rparr>, []))"
  using assms by (simp add: new_Crawler_def handleStart_def)

theorem invalid_url_fails_before_any_request_witness:
  "new_URL demo ''not a url'' = None \<and>
   new_Crawler demo ''not a url'' = Inl (Error ''Invalid URL provided'') \<and>
   handleStart demo ''not a url'' stylesheet_events
       \<lparr>appState = IDLE, app_logs = [], app_stats = zero_stats\<rparr> =
     (\<lparr>appState = ERROR_STATE, app_logs = [], app_stats = zero_stats\<rparr>, [])"
proof -
  have h: "new_URL demo ''not a url'' = None"
    by (simp add: demo_def demo_new_URL_def startsWith_def)
  from h invalid_url_fails_before_any_request [OF h, of stylesheet_events
      "\<lparr>appState = IDLE, app_logs = [], app_stats = zero_stats\<rparr>"]
  show ?thesis by simp
qed

text \<open>
  C5, as the code has it. The registry is keyed by the original url, and the archive
  path of every registered asset is the folder of its kind, a slash and its filename; so
  two registered assets have the same archive path exactly when they have the same folder
  and the same filename. Distinct urls can have both (the claim that archive paths are
  unique fails: see the example after the theorem).
\<close>

theorem archive_path_is_folder_and_filename:
  assumes "new_Crawler P u = Inr c"
    and "assets (cr (run P evs (start c))) u1 = Some a1"
    and "assets (cr (run P evs (start c))) u2 = Some a2"
  shows "originalUrl a1 = u1 \<and> originalUrl a2 = u2 \<and>
         path a1 = getFolderForType (atype a1) @ ''/'' @ filename a1 \<and>
         path a2 = getFolderForType (atype a2) @ ''/'' @ filename a2 \<and>
         (path a1 = path a2 \<longleftrightarrow>
            getFolderForType (atype a1) = getFolderForType (atype a2) \<and> filename a1 = filename a2)"
proof -
  have "inv_registry (run P evs (start c))"
    by (rule run_invariant [where Q = inv_registry]) (simp_all add: inv_registry_start [OF assms(1)] inv_registry_step)
  with assms(2,3) have "asset_ok u1 a1" "asset_ok u2 a2" by (simp_all add: inv_registry_def)
  then show ?thesis by (simp add: asset_ok_def folder_path_inject)
qed

theorem archive_path_is_folder_and_filename_witness:
  "new_Crawler demo ''https://example.com/'' = Inr demo_crawler \<and>
   assets (cr (run demo logo_events (start demo_crawler))) ''https://example.com/a/logo.png'' =
     Some logo_a \<and>
   assets (cr (run demo logo_events (start demo_crawler))) ''https://example.com/b/logo.png'' =
     Some logo_b \<and>
   path logo_a = getFolderForType (atype logo_a) @ ''/'' @ filename logo_a \<and>
   (path logo_a = path logo_b) =
     (getFolderForType (atype logo_a) = getFolderForType (atype logo_b) \<and>
      filename logo_a = filename logo_b)"
proof -
  have h: "new_Crawler demo ''https://example.com/'' = Inr demo_crawler"
    by (simp add: new_Crawler_def demo_def demo_new_URL_def startsWith_def demo_crawler_def)
  have a: "assets (cr (run demo logo_events (start demo_crawler))) ''https://example.com/a/logo.png'' =
      Some logo_a"
    by code_simp
  have b: "assets (cr (run demo logo_events (start demo_crawler))) ''https://example.com/b/logo.png'' =
      Some logo_b"
    by code_simp
  from h a b archive_path_is_folder_and_filename [OF h a b] show ?thesis by blast
qed

text \<open>
  The two images \<^verbatim>\<open>a/logo.png\<close> and \<^verbatim>\<open>b/logo.png\<close> of one page are registered under the
  one archive path \<^verbatim>\<open>images/logo.png\<close>, which ends holding the second body.
\<close>

theorem two_assets_one_archive_path:
  "map_option path (assets (cr (run demo logo_events (start demo_crawler)))
      ''https://example.com/a/logo.png'') = Some ''images/logo.png'' \<and>
   map_option path (assets (cr (run demo logo_events (start demo_crawler)))
      ''https://example.com/b/logo.png'') = Some ''images/logo.png'' \<and>
   zip_files (cr (run demo logo_events (start demo_crawler))) ''images/logo.png'' = Some (Blob ''second'') \<and>
   drv (run demo logo_events (start demo_crawler)) = Finished"
  by code_simp

text \<open>
  C10. A step of a stylesheet task between the start of \<^verbatim>\<open>processCssAssets\<close> and the end
  of its download loop leaves \<open>pagesScanned\<close>, \<open>assetsFound\<close>, \<open>assetsDownloaded\<close> and the
  registry as they are; it writes to the archive under \<^verbatim>\<open>assets/\<close> only; the body of a
  sub-asset adds its size to \<open>totalSize\<close> and is stored under \<^verbatim>\<open>assets/\<close> with its name.
\<close>

theorem css_sub_downloads_frame:
  assumes "css_phase t" and "task_step P ev t c = (t', c')"
  shows "pagesScanned (stats c') = pagesScanned (stats c) \<and>
         assetsFound (stats c') = assetsFound (stats c) \<and>
         assetsDownloaded (stats c') = assetsDownloaded (stats c) \<and>
         assets c' = assets c \<and>
         (\<forall>p. zip_files c' p \<noteq> zip_files c p \<longrightarrow> startsWith p ''assets/'') \<and>
         (\<forall>a r p d. t_pc t = CssBody a r p \<and> ev = BodyOk d \<longrightarrow>
            totalSize (stats c') = totalSize (stats c) + length d) \<and>
         (\<forall>a r p d. t_pc t = CssResume a r p d \<and> ev = Tick \<longrightarrow>
            zip_files c' (''assets/'' @ fst (getFilenameFromUrl P (rng c) (fst a) Other)) =
              Some (Blob d))"
  using assms
  apply (cases "t_pc t")
  apply (auto simp: css_phase_def task_step_def ops_defs startsWith_def
      split: if_splits event.splits prod.splits
      dest!: css_loop_frame processCssAssets_frame)
  done

theorem css_sub_downloads_frame_witness:
  "css_phase demo_css_task \<and>
   assetsDownloaded (stats (snd (task_step demo Tick demo_css_task demo_crawler))) =
     assetsDownloaded (stats demo_crawler) \<and>
   assets (snd (task_step demo Tick demo_css_task demo_crawler)) = assets demo_crawler \<and>
   zip_files (snd (task_step demo Tick demo_css_task demo_crawler)) ''assets/img.png'' =
     Some (Blob ''PNG'')"
proof -
  have h1: "css_phase demo_css_task" by (simp add: css_phase_def demo_css_task_def)
  have h2: "task_step demo Tick demo_css_task demo_crawler =
      (fst (task_step demo Tick demo_css_task demo_crawler),
       snd (task_step demo Tick demo_css_task demo_crawler))"
    by simp
  have pc: "t_pc demo_css_task =
      CssResume (''https://example.com/img.png'', ''../assets/img.png'') []
        ''body{background-image:url(img.png)}'' ''PNG''"
    by (simp add: demo_css_task_def)
  have fn: "fst (getFilenameFromUrl demo (rng demo_crawler) ''https://example.com/img.png'' Other) =
      ''img.png''"
    by code_simp
  from css_sub_downloads_frame [OF h1 h2] pc fn h1 show ?thesis by simp
qed

text \<open>
  C2, as the code has it. \<open>fetched\<close> lists the urls handed to \<^verbatim>\<open>fetchWithProxy\<close> in order
  (a claim on a url is followed by that call in the same synchronous step). The first
  is the page; the calls of the download tasks and of their stylesheet sub-downloads,
  which are the rest, are pairwise distinct, whatever the events and their order, and no
  two tasks hold a claim on one url. The page's own url is not put into the visited set
  (see the example after the theorem).
\<close>

theorem downloader_fetches_each_url_once:
  assumes "new_Crawler P u = Inr c"
  shows "fetched (cr (run P evs (start c))) \<noteq> [] \<and>
         hd (fetched (cr (run P evs (start c)))) = href (url c) \<and>
         distinct (tl (fetched (cr (run P evs (start c))))) \<and>
         set (tl (fetched (cr (run P evs (start c))))) \<subseteq> visitedUrls (cr (run P evs (start c))) \<and>
         (\<forall>doc settled ts rest. drv (run P evs (start c)) = Downloading doc settled ts rest \<longrightarrow>
            distinct (claimed (settled @ ts)))"
proof -
  have "inv_claims (run P evs (start c))"
    by (rule run_invariant [where Q = inv_claims])
       (simp_all add: inv_claims_start [OF assms] inv_claims_step)
  moreover have "url (cr (run P evs (start c))) = url c"
    by (simp add: url_run start_def url_frame)
  ultimately show ?thesis by (auto simp: inv_claims_def inv_fetch_def)
qed

theorem downloader_fetches_each_url_once_witness:
  "new_Crawler demo ''https://example.com/'' = Inr demo_crawler \<and>
   fetched (cr (run demo stylesheet_events (start demo_crawler))) =
     [''https://example.com/'', ''https://example.com/style.css'', ''https://example.com/img.png''] \<and>
   distinct (tl (fetched (cr (run demo stylesheet_events (start demo_crawler)))))"
proof -
  have h: "new_Crawler demo ''https://example.com/'' = Inr demo_crawler"
    by (simp add: new_Crawler_def demo_def demo_new_URL_def startsWith_def demo_crawler_def)
  have f: "fetched (cr (run demo stylesheet_events (start demo_crawler))) =
     [''https://example.com/'', ''https://example.com/style.css'', ''https://example.com/img.png'']"
    by code_simp
  from h f downloader_fetches_each_url_once [OF h, of stylesheet_events] show ?thesis by blast
qed

text \<open>
  A page at \<^verbatim>\<open>https://example.com/\<close> whose script element names that same url: the url is
  fetched for the page and once more for the script.
\<close>

theorem page_url_fetched_twice:
  "fetched (cr (run demo self_events (start demo_crawler))) =
     [''https://example.com/'', ''https://example.com/'']"
  by code_simp

text \<open>
  C8. The queue is cut into consecutive chunks of at least one and at most five tasks.
  Whenever a chunk is being awaited, every task of the earlier chunks has settled (a
  stylesheet task settles only after its sub-download loop), the earlier chunks were
  full, the awaited chunk and the chunks to come are the chunking of the rest of the
  queue, and as long as one task of the awaited chunk has not settled no event makes
  the driver move on.
\<close>

theorem chunks_settle_in_order:
  assumes "new_Crawler P u = Inr c"
    and "drv (run P evs (start c)) = Downloading doc settled ts rest"
  shows "concat (chunks q) = q \<and>
         (\<forall>ch \<in> set (chunks q). 0 < length ch \<and> length ch \<le> CONCURRENCY) \<and>
         list_all terminal settled \<and>
         length settled mod CONCURRENCY = 0 \<and>
         map key ts # rest = chunks (map key ts @ concat rest) \<and>
         0 < length ts \<and> length ts \<le> CONCURRENCY \<and>
         (\<forall>ch \<in> set rest. 0 < length ch \<and> length ch \<le> CONCURRENCY) \<and>
         length settled + length ts + length (concat rest) =
           assetsFound (stats (cr (run P evs (start c)))) \<and>
         (\<not> list_all terminal ts \<longrightarrow>
            (\<forall>ev. driver_step P ev (run P evs (start c)) = run P evs (start c)))"
proof -
  have "inv_chunks (run P evs (start c))"
    by (rule run_invariant [where Q = inv_chunks]) (simp_all add: inv_chunks_start inv_chunks_step)
  with assms(2) have i: "list_all terminal settled"
    "map key ts # rest = chunks (map key ts @ concat rest)"
    "length settled mod CONCURRENCY = 0"
    "length settled + length ts + length (concat rest) = assetsFound (stats (cr (run P evs (start c))))"
    by (simp_all add: inv_chunks_def)
  from chunks_rest [OF i(2)] have "0 < length ts" "length ts \<le> CONCURRENCY"
    "\<forall>x \<in> set rest. 0 < length x \<and> length x \<le> CONCURRENCY" by simp_all
  with i chunks_concat [of q] chunks_sizes [of q] driver_waits [OF assms(2)]
  show ?thesis by blast
qed

theorem chunks_settle_in_order_witness:
  "new_Crawler demo ''https://example.com/'' = Inr demo_crawler \<and>
   drv (run demo gallery_first (start demo_crawler)) =
     Downloading gallery_doc gallery_settled [img_task ''6'' (AwaitFetch 0)] [] \<and>
   list_all terminal gallery_settled \<and>
   length gallery_settled mod CONCURRENCY = 0 \<and>
   length gallery_settled + length [img_task ''6'' (AwaitFetch 0)] +
       length (concat ([] :: (string \<times> asset_type) list list)) =
     assetsFound (stats (cr (run demo gallery_first (start demo_crawler))))"
proof -
  have h: "new_Crawler demo ''https://example.com/'' = Inr demo_crawler"
    by (simp add: new_Crawler_def demo_def demo_new_URL_def startsWith_def demo_crawler_def)
  have d: "drv (run demo gallery_first (start demo_crawler)) =
     Downloading gallery_doc gallery_settled [img_task ''6'' (AwaitFetch 0)] []"
    by code_simp
  from h d chunks_settle_in_order [OF h d, of "[]"] show ?thesis
    by (elim conjE, intro conjI) assumption+
qed

text \<open>
  C6, as the code has it. An event for one task changes that task only and leaves the
  driver awaiting the same chunk; a fetch that fails at the last relay rejects, and the
  rejection is caught in the task and logged at level WARNING with the url in the
  message; a chunk whose tasks have all settled, failed ones included, lets the driver
  go on to the next chunk or to the archive, and the archive ends the session. At the end
  \<open>assetsDownloaded\<close> is the number of attempts less the number of failures, and the
  attempts are at most \<open>assetsFound\<close>; so when exactly one task fails and every queued
  task was attempted, \<open>assetsDownloaded + 1 = assetsFound\<close>. A queued task whose url was
  already visited is not attempted (see the example after the theorem).
\<close>

theorem task_failure_is_contained:
  assumes "new_Crawler P u = Inr c" and "s = run P evs (start c)"
  shows "(\<forall>doc settled ts rest i ev.
            drv s = Downloading doc settled ts rest \<and> i < length ts \<longrightarrow>
            drv (step P (Task i, ev) s) =
              Downloading doc settled (ts[i := fst (task_step P ev (ts ! i) (cr s))]) rest) \<and>
         (\<forall>t k ev x. t_pc t = AwaitFetch k \<and> \<not> Suc k < PROXIES \<and> fetch_failed ev \<longrightarrow>
            task_step P ev t x = (t\<lparr>t_pc := Rejected (all_failed (t_url t) ev)\<rparr>, x)) \<and>
         (\<forall>t m x. t_pc t = Rejected m \<longrightarrow>
            task_step P Tick t x =
              (t\<lparr>t_pc := Failed\<rparr>,
               log (''Failed to download '' @ t_url t @ '': '' @ m) WARNING x)) \<and>
         (\<forall>doc settled ts rest.
            drv s = Downloading doc settled ts rest \<and> list_all terminal ts \<longrightarrow>
            drv (step P (Driver, Tick) s) = Compressing \<or>
            (\<exists>ts' rest'. drv (step P (Driver, Tick) s) = Downloading doc (settled @ ts) ts' rest')) \<and>
         (drv s = Compressing \<longrightarrow> drv (step P (Driver, ZipOk) s) = Finished) \<and>
         attempts (cr s) \<le> assetsFound (stats (cr s)) \<and>
         (drv s = Compressing \<or> drv s = Finished \<longrightarrow>
            assetsDownloaded (stats (cr s)) + failures (cr s) = attempts (cr s)) \<and>
         ((drv s = Compressing \<or> drv s = Finished) \<and> failures (cr s) = 1 \<and>
          attempts (cr s) = assetsFound (stats (cr s)) \<longrightarrow>
            assetsDownloaded (stats (cr s)) + 1 = assetsFound (stats (cr s)))"
proof -
  from assms have i: "inv_account s" by (simp add: inv_account_run)
  have a: "attempts (cr s) \<le> assetsFound (stats (cr s))"
    using i by (cases "drv s") (simp_all add: inv_account_def)
  have b: "drv s = Compressing \<or> drv s = Finished \<Longrightarrow>
      assetsDownloaded (stats (cr s)) + failures (cr s) = attempts (cr s)"
    using i by (auto simp: inv_account_def)
  have c: "(drv s = Compressing \<or> drv s = Finished) \<and> failures (cr s) = 1 \<and>
          attempts (cr s) = assetsFound (stats (cr s)) \<Longrightarrow>
            assetsDownloaded (stats (cr s)) + 1 = assetsFound (stats (cr s))"
    using b by auto
  have d: "\<And>doc settled ts rest i ev.
            drv s = Downloading doc settled ts rest \<and> i < length ts \<Longrightarrow>
            drv (step P (Task i, ev) s) =
              Downloading doc settled (ts[i := fst (task_step P ev (ts ! i) (cr s))]) rest"
    by (simp add: task_event_drv)
  from a b c d show ?thesis
    using last_relay_fails rejected_is_logged settled_chunk_moves_on zip_ok_finishes
    by (intro conjI allI impI) (blast | simp)+
qed

theorem task_failure_is_contained_witness:
  "new_Crawler demo ''https://example.com/'' = Inr demo_crawler \<and>
   drv (run demo gallery_events (start demo_crawler)) = Finished \<and>
   failures (cr (run demo gallery_events (start demo_crawler))) = 1 \<and>
   attempts (cr (run demo gallery_events (start demo_crawler))) = 6 \<and>
   assetsFound (stats (cr (run demo gallery_events (start demo_crawler)))) = 6 \<and>
   \<lparr>message = ''Failed to download https://example.com/2.png: All proxies failed to fetch https://example.com/2.png. Last error: TypeError: Failed to fetch'',
     level = WARNING\<rparr> \<in> set (logs (cr (run demo gallery_events (start demo_crawler)))) \<and>
   assetsDownloaded (stats (cr (run demo gallery_events (start demo_crawler)))) + 1 =
     assetsFound (stats (cr (run demo gallery_events (start demo_crawler))))"
proof -
  have h: "new_Crawler demo ''https://example.com/'' = Inr demo_crawler"
    by (simp add: new_Crawler_def demo_def demo_new_URL_def startsWith_def demo_crawler_def)
  have d: "drv (run demo gallery_events (start demo_crawler)) = Finished" by code_simp
  have f: "failures (cr (run demo gallery_events (start demo_crawler))) = 1" by code_simp
  have a: "attempts (cr (run demo gallery_events (start demo_crawler))) = 6" by code_simp
  have n: "assetsFound (stats (cr (run demo gallery_events (start demo_crawler)))) = 6" by code_simp
  have w: "\<lparr>message = ''Failed to download https://example.com/2.png: All proxies failed to fetch https://example.com/2.png. Last error: TypeError: Failed to fetch'',
     level = WARNING\<rparr> \<in> set (logs (cr (run demo gallery_events (start demo_crawler))))"
    by code_simp
  note t = task_failure_is_contained [OF h refl, of gallery_events]
  note last = t [THEN conjunct2, THEN conjunct2, THEN conjunct2, THEN conjunct2, THEN conjunct2,
    THEN conjunct2, THEN conjunct2]
  from last d f a n have "assetsDownloaded (stats (cr (run demo gallery_events (start demo_crawler)))) + 1 =
          assetsFound (stats (cr (run demo gallery_events (start demo_crawler))))"
    by simp
  with h d f a n w show ?thesis by (intro conjI)
qed

text \<open>
  A page with the same image twice and one script: the script fails, the image is
  downloaded once, its second task is skipped; three are found and one is downloaded.
\<close>

theorem duplicate_reference_counts_as_found:
  "drv (run demo dup_events (start demo_crawler)) = Finished \<and>
   failures (cr (run demo dup_events (start demo_crawler))) = 1 \<and>
   assetsFound (stats (cr (run demo dup_events (start demo_crawler)))) = 3 \<and>
   assetsDownloaded (stats (cr (run demo dup_events (start demo_crawler)))) = 1"
  by code_simp

text \<open>
  C7, as the code has it. While a chunk is awaited, \<open>assetsDownloaded\<close> is the number of
  tasks that succeeded, the number of start lines is the number of tasks that claimed
  their url, and the number of failure warnings is the number of tasks that failed. A
  task that claims its url emits its start line at once, one that finds it visited
  emits nothing. \<open>totalSize\<close> grows exactly when a body arrives, by its size: a task's own
  body, which arrives at most once, and the body of each sub-asset of a stylesheet.
\<close>

theorem successful_task_counted_once:
  assumes "new_Crawler P u = Inr c"
    and "drv (run P evs (start c)) = Downloading doc settled ts rest"
  shows "assetsDownloaded (stats (cr (run P evs (start c)))) =
           count_pc (\<lambda>p. p = Succeeded) (settled @ ts) \<and>
         attempts (cr (run P evs (start c))) = count_pc (\<lambda>p. p \<noteq> Skipped) (settled @ ts) \<and>
         failures (cr (run P evs (start c))) = count_pc (\<lambda>p. p = Failed) (settled @ ts) \<and>
         (\<forall>v ty x. v \<notin> visitedUrls x \<longrightarrow>
            logs (snd (downloadAsset P v ty x)) =
              logs x @ [\<lparr>message = ''Fetching '' @ take 50 v @ ''...'', level = INFO\<rparr>] \<and>
            t_pc (fst (downloadAsset P v ty x)) = AwaitFetch 0) \<and>
         (\<forall>v ty x. v \<in> visitedUrls x \<longrightarrow>
            snd (downloadAsset P v ty x) = x \<and> t_pc (fst (downloadAsset P v ty x)) = Skipped) \<and>
         (\<forall>ev t x t' x'. task_step P ev t x = (t', x') \<longrightarrow>
            totalSize (stats x') = totalSize (stats x) + body_size (t_pc t) ev) \<and>
         (\<forall>ev t x t' x'. task_step P ev t x = (t', x') \<and> \<not> before_body t \<longrightarrow> \<not> before_body t') \<and>
         (\<forall>ev t x t' x'. task_step P ev t x = (t', x') \<and> before_body t \<and> \<not> before_body t' \<longrightarrow>
            (\<exists>m. t_pc t' = Rejected m) \<or>
            (\<exists>d. ev = BodyOk d \<and> t_pc t = AwaitBody \<and> t_pc t' = Resume d)) \<and>
         (\<forall>ev t x t' x' m. task_step P ev t x = (t', x') \<and> t_pc t = Rejected m \<longrightarrow>
            t_pc t' = Rejected m \<or> t_pc t' = Failed)"
proof -
  from assms(1) have "inv_account (run P evs (start c))" by (rule inv_account_run)
  with assms(2) have a: "assetsDownloaded (stats (cr (run P evs (start c)))) =
           count_pc (\<lambda>p. p = Succeeded) (settled @ ts)"
    "attempts (cr (run P evs (start c))) = count_pc (\<lambda>p. p \<noteq> Skipped) (settled @ ts)"
    "failures (cr (run P evs (start c))) = count_pc (\<lambda>p. p = Failed) (settled @ ts)"
    by (simp_all add: inv_account_def)
  have b1: "\<forall>v ty x. v \<notin> visitedUrls x \<longrightarrow>
            logs (snd (downloadAsset P v ty x)) =
              logs x @ [\<lparr>message = ''Fetching '' @ take 50 v @ ''...'', level = INFO\<rparr>] \<and>
            t_pc (fst (downloadAsset P v ty x)) = AwaitFetch 0"
    by (intro allI impI) (rule downloadAsset_start_line)
  have b2: "\<forall>v ty x. v \<in> visitedUrls x \<longrightarrow>
            snd (downloadAsset P v ty x) = x \<and> t_pc (fst (downloadAsset P v ty x)) = Skipped"
    by (intro allI impI) (rule downloadAsset_skips)
  have b3: "\<forall>ev t x t' x'. task_step P ev t x = (t', x') \<longrightarrow>
            totalSize (stats x') = totalSize (stats x) + body_size (t_pc t) ev"
    by (intro allI impI) (rule task_step_total)
  have b4: "\<forall>ev t x t' x'. task_step P ev t x = (t', x') \<and> \<not> before_body t \<longrightarrow> \<not> before_body t'"
    by (intro allI impI, elim conjE) (rule task_step_after_body)
  have b5: "\<forall>ev t x t' x'. task_step P ev t x = (t', x') \<and> before_body t \<and> \<not> before_body t' \<longrightarrow>
            (\<exists>m. t_pc t' = Rejected m) \<or>
            (\<exists>d. ev = BodyOk d \<and> t_pc t = AwaitBody \<and> t_pc t' = Resume d)"
    by (intro allI impI, elim conjE) (rule task_step_own_body)
  have b6: "\<forall>ev t x t' x' m. task_step P ev t x = (t', x') \<and> t_pc t = Rejected m \<longrightarrow>
            t_pc t' = Rejected m \<or> t_pc t' = Failed"
    by (intro allI impI, elim conjE) (rule task_step_rejected)
  from a b1 b2 b3 b4 b5 b6 show ?thesis by (intro conjI)
qed

theorem successful_task_counted_once_witness:
  "new_Crawler demo ''https://example.com/'' = Inr demo_crawler \<and>
   drv (run demo gallery_first (start demo_crawler)) =
     Downloading gallery_doc gallery_settled [img_task ''6'' (AwaitFetch 0)] [] \<and>
   count_pc (\<lambda>p. p = Succeeded) (gallery_settled @ [img_task ''6'' (AwaitFetch 0)]) = 4 \<and>
   assetsDownloaded (stats (cr (run demo gallery_first (start demo_crawler)))) = 4 \<and>
   attempts (cr (run demo gallery_first (start demo_crawler))) = 6 \<and>
   failures (cr (run demo gallery_first (start demo_crawler))) = 1"
proof -
  have h: "new_Crawler demo ''https://example.com/'' = Inr demo_crawler"
    by (simp add: new_Crawler_def demo_def demo_new_URL_def startsWith_def demo_crawler_def)
  have d: "drv (run demo gallery_first (start demo_crawler)) =
     Downloading gallery_doc gallery_settled [img_task ''6'' (AwaitFetch 0)] []"
    by code_simp
  have n1: "count_pc (\<lambda>p. p = Succeeded) (gallery_settled @ [img_task ''6'' (AwaitFetch 0)]) = 4"
    by code_simp
  have n2: "count_pc (\<lambda>p. p \<noteq> Skipped) (gallery_settled @ [img_task ''6'' (AwaitFetch 0)]) = 6"
    by code_simp
  have n3: "count_pc (\<lambda>p. p = Failed) (gallery_settled @ [img_task ''6'' (AwaitFetch 0)]) = 1"
    by code_simp
  note t = successful_task_counted_once [OF h d]
  note t1 = t [THEN conjunct1]
  note t2 = t [THEN conjunct2, THEN conjunct1]
  note t3 = t [THEN conjunct2, THEN conjunct2, THEN conjunct1]
  from h d n1 n2 n3 t1 t2 t3 show ?thesis by simp
qed

text \<open>
  One successful stylesheet task moves \<open>totalSize\<close> twice (from 36 to 71 for its text,
  to 74 for its image); and the log of a session with two successful image tasks has
  one line for each of them, the start line.
\<close>

theorem stylesheet_task_adds_bytes_twice:
  "map totalSize (snapshots (cr (run demo stylesheet_events (start demo_crawler)))) =
     [36, 36, 36, 71, 74, 74] \<and>
   assetsDownloaded (stats (cr (run demo stylesheet_events (start demo_crawler)))) = 1 \<and>
   assetsFound (stats (cr (run demo stylesheet_events (start demo_crawler)))) = 1 \<and>
   map message (logs (cr (run demo logo_events (start demo_crawler)))) =
     [''Starting crawl for https://example.com/...'', ''Main HTML downloaded successfully.'',
      ''Found 2 linked assets. Downloading...'', ''Fetching https://example.com/a/logo.png...'',
      ''Fetching https://example.com/b/logo.png...'', ''Generated index.html'',
      ''Compressing files...'', ''ZIP file downloaded!'']"
  by code_simp

text \<open>
  C4 at a page that declares a base. Discovery resolves \<^verbatim>\<open>a.png\<close> against the base
  \<^verbatim>\<open>https://cdn.example.com/\<close> and the image is registered under that url with the path
  \<^verbatim>\<open>images/a.png\<close>; \<open>resolveUrl\<close> resolves the same attribute against the page url, finds
  nothing in the registry, and the document is left as it was.
\<close>

theorem page_with_base_is_not_rewritten:
  "find (\<lambda>e. localName e = ''base'') (demo_parse ''<base href=https://cdn.example.com/><img src=a.png>'') =
     Some (el ''base'' ''BASE'' [(''href'', ''https://cdn.example.com/'')] [''head'', ''html'']) \<and>
   queue_entry demo ''https://cdn.example.com/'' (el ''img'' ''IMG'' [(''src'', ''a.png'')] [''body'', ''html'']) =
     Some (''https://cdn.example.com/a.png'', Image) \<and>
   map_option path (assets (cr (run demo base_events (start demo_crawler))) ''https://cdn.example.com/a.png'') =
     Some ''images/a.png'' \<and>
   resolveUrl demo (cr (run demo base_events (start demo_crawler))) ''a.png'' = ''https://example.com/a.png'' \<and>
   rewriteHtml demo (cr (run demo base_events (start demo_crawler)))
       (demo_parse ''<base href=https://cdn.example.com/><img src=a.png>'') =
     demo_parse ''<base href=https://cdn.example.com/><img src=a.png>''"
  by code_simp

end
